theory Spec2Isabelle
  imports Main "HOL-Library.Word" "HOL-Library.Monad_Syntax"
begin

unbundle bit_operations_syntax

section \<open>The heap of mm.c as a state\<close>

text \<open>
  The allocator of \<^verbatim>\<open>mm.c\<close> works on one linear region of memory through the macros
  \<^verbatim>\<open>GET\<close> and \<^verbatim>\<open>PUT\<close>, which read and write a \<^verbatim>\<open>uintptr_t\<close> at an address. The
  model is for a 64-bit target: \<^verbatim>\<open>WSIZE = sizeof(void *) = 8\<close>, and \<^verbatim>\<open>size_t\<close>,
  \<^verbatim>\<open>uintptr_t\<close> and pointers are 64-bit words, whose arithmetic wraps around.
  Memory is a function from the byte address of a word to the word stored there; every
  address the allocator uses is a multiple of the word size when the region starts at
  one. The two globals \<^verbatim>\<open>heap_listp\<close> and \<^verbatim>\<open>free_listp\<close> are fields of the state.
\<close>

type_synonym word64 = "64 word"

record heap =
  mem :: "word64 \<Rightarrow> word64"
  mem_brk :: word64
  mem_max_addr :: word64
  heap_listp :: word64
  free_listp :: word64

definition WSIZE :: word64 where
  "WSIZE = 8"

definition DSIZE :: word64 where
  "DSIZE = 2 * WSIZE"

definition CHUNKSIZE :: word64 where
  "CHUNKSIZE = push_bit 12 1"

definition NULL :: word64 where
  "NULL = 0"

definition MAX_c :: "word64 \<Rightarrow> word64 \<Rightarrow> word64" where
  "MAX_c x y = (if x > y then x else y)"

definition PACK :: "word64 \<Rightarrow> word64 \<Rightarrow> word64" where
  "PACK sz alloc = sz OR alloc"

definition GET :: "heap \<Rightarrow> word64 \<Rightarrow> word64" where
  "GET s p = mem s p"

definition PUT :: "heap \<Rightarrow> word64 \<Rightarrow> word64 \<Rightarrow> heap" where
  "PUT s p val = s\<lparr>mem := (mem s)(p := val)\<rparr>"

definition GET_SIZE :: "heap \<Rightarrow> word64 \<Rightarrow> word64" where
  "GET_SIZE s p = GET s p AND NOT (DSIZE - 1)"

definition GET_ALLOC :: "heap \<Rightarrow> word64 \<Rightarrow> word64" where
  "GET_ALLOC s p = GET s p AND 1"

definition HDRP :: "word64 \<Rightarrow> word64" where
  "HDRP bp = bp - WSIZE"

definition FTRP :: "heap \<Rightarrow> word64 \<Rightarrow> word64" where
  "FTRP s bp = bp + GET_SIZE s (HDRP bp) - DSIZE"

definition NEXT_BLKP :: "heap \<Rightarrow> word64 \<Rightarrow> word64" where
  "NEXT_BLKP s bp = bp + GET_SIZE s (bp - WSIZE)"

definition PREV_BLKP :: "heap \<Rightarrow> word64 \<Rightarrow> word64" where
  "PREV_BLKP s bp = bp - GET_SIZE s (bp - DSIZE)"

text \<open>\<^verbatim>\<open>ROUND(size) = ((size) + (DSIZE-1)) & ~0x7\<close>; the \<^verbatim>\<open>int\<close> constant \<^verbatim>\<open>~0x7\<close> is
  converted to \<^verbatim>\<open>size_t\<close>, which sets every bit above the low three.\<close>

definition ROUND :: "word64 \<Rightarrow> word64" where
  "ROUND sz = (sz + (DSIZE - 1)) AND NOT 7"

text \<open>\<^verbatim>\<open>struct free_blk { void *prev; void *next; }\<close>: \<^verbatim>\<open>prev\<close> is the word at the
  block pointer, \<^verbatim>\<open>next\<close> the word after it.\<close>

definition fb_prev :: "heap \<Rightarrow> word64 \<Rightarrow> word64" where
  "fb_prev s bp = GET s bp"

definition fb_next :: "heap \<Rightarrow> word64 \<Rightarrow> word64" where
  "fb_next s bp = GET s (bp + WSIZE)"

definition set_prev :: "heap \<Rightarrow> word64 \<Rightarrow> word64 \<Rightarrow> heap" where
  "set_prev s bp v = PUT s bp v"

definition set_next :: "heap \<Rightarrow> word64 \<Rightarrow> word64 \<Rightarrow> heap" where
  "set_next s bp v = PUT s (bp + WSIZE) v"

text \<open>Modelled from the spec: the region extender \<^verbatim>\<open>mem_sbrk\<close> of \<^verbatim>\<open>memlib.h\<close>, which is
  not part of the sources. The spec gives it as \<^verbatim>\<open>extend(n_bytes)\<close>, which grows the
  region by \<^verbatim>\<open>n_bytes\<close> and returns the address of the first new byte (the old break),
  or returns a distinguished error value, here \<^verbatim>\<open>(void *)-1\<close> as the callers test it,
  and then changes nothing. The extender fails when the region would grow past
  \<open>mem_max_addr\<close>.\<close>

definition mem_sbrk :: "heap \<Rightarrow> word64 \<Rightarrow> word64 \<times> heap" where
  "mem_sbrk s incr =
     (if unat (mem_brk s) + unat incr > unat (mem_max_addr s) then (- 1, s)
      else (mem_brk s, s\<lparr>mem_brk := mem_brk s + incr\<rparr>))"

section \<open>The free list\<close>

definition add_free :: "heap \<Rightarrow> word64 \<Rightarrow> heap" where
  "add_free s bp =
     (let s1 = set_prev s (fb_next s (free_listp s)) bp;
          s2 = set_next s1 bp (fb_next s1 (free_listp s1));
          s3 = set_prev s2 bp (free_listp s2)
      in set_next s3 (free_listp s3) bp)"

definition remove_free :: "heap \<Rightarrow> word64 \<Rightarrow> heap" where
  "remove_free s bp =
     (let s1 = set_prev s (fb_next s bp) (fb_prev s bp)
      in set_next s1 (fb_prev s1 bp) (fb_next s1 bp))"

section \<open>Coalescing, heap extension and placement\<close>

definition coalesce :: "heap \<Rightarrow> word64 \<Rightarrow> word64 \<times> heap" where
  "coalesce s bp =
     (let next_alloc = (GET_ALLOC s (HDRP (NEXT_BLKP s bp)) \<noteq> 0);
          prev_alloc = (GET_ALLOC s (FTRP s (PREV_BLKP s bp)) \<noteq> 0);
          sz = GET_SIZE s (HDRP bp)
      in if prev_alloc \<and> next_alloc then (bp, add_free s bp)
         else if prev_alloc \<and> \<not> next_alloc then
           (let sz = sz + GET_SIZE s (HDRP (NEXT_BLKP s bp));
                s1 = remove_free s (NEXT_BLKP s bp);
                s2 = PUT s1 (HDRP bp) (PACK sz 0);
                s3 = PUT s2 (FTRP s2 bp) (PACK sz 0)
            in (bp, add_free s3 bp))
         else if \<not> prev_alloc \<and> next_alloc then
           (let sz = sz + GET_SIZE s (HDRP (PREV_BLKP s bp));
                bp = PREV_BLKP s bp;
                s1 = remove_free s bp;
                s2 = PUT s1 (HDRP bp) (PACK sz 0);
                s3 = PUT s2 (FTRP s2 bp) (PACK sz 0)
            in (bp, add_free s3 bp))
         else
           (let sz = sz + (GET_SIZE s (HDRP (PREV_BLKP s bp)) +
                               GET_SIZE s (FTRP s (NEXT_BLKP s bp)));
                s1 = remove_free s (PREV_BLKP s bp);
                s2 = remove_free s1 (NEXT_BLKP s1 bp);
                bp = PREV_BLKP s2 bp;
                s3 = PUT s2 (HDRP bp) (PACK sz 0);
                s4 = PUT s3 (FTRP s3 bp) (PACK sz 0)
            in (bp, add_free s4 bp)))"

definition extend_heap :: "heap \<Rightarrow> word64 \<Rightarrow> word64 \<times> heap" where
  "extend_heap s words =
     (let sz = (if words mod 2 \<noteq> 0 then (words + 1) * WSIZE else words * WSIZE);
          (bp, s1) = mem_sbrk s sz
      in if bp = - 1 then (NULL, s1)
         else
           (let s2 = PUT s1 (HDRP bp) (PACK sz 0);
                s3 = PUT s2 (FTRP s2 bp) (PACK sz 0);
                s4 = PUT s3 (HDRP (NEXT_BLKP s3 bp)) (PACK 0 1)
            in coalesce s4 bp))"

definition place :: "heap \<Rightarrow> word64 \<Rightarrow> word64 \<Rightarrow> heap" where
  "place s bp asize =
     (let csize = GET_SIZE s (HDRP bp)
      in if csize - asize \<ge> 3 * DSIZE then
           (let s1 = PUT s (HDRP bp) (PACK asize 1);
                s2 = PUT s1 (FTRP s1 bp) (PACK asize 1);
                s3 = remove_free s2 bp;
                bp = NEXT_BLKP s3 bp;
                s4 = PUT s3 (HDRP bp) (PACK (csize - asize) 0);
                s5 = PUT s4 (FTRP s4 bp) (PACK (csize - asize) 0)
            in add_free s5 bp)
         else
           (let s1 = PUT s (HDRP bp) (PACK csize 1);
                s2 = PUT s1 (FTRP s1 bp) (PACK csize 1)
            in remove_free s2 bp))"

text \<open>The loop of \<^verbatim>\<open>find_fit\<close> follows \<^verbatim>\<open>next\<close> links for as long as it meets headers
  with a clear allocated bit, so on a malformed list it need not return: the loop is a
  partial function, and \<open>None\<close> is the run that never returns.\<close>

partial_function (option) find_fit_loop :: "heap \<Rightarrow> word64 \<Rightarrow> word64 \<Rightarrow> word64 option" where
  "find_fit_loop s asize bp =
     (if GET_ALLOC s (HDRP bp) = 0 then
        (if asize \<le> GET_SIZE s (HDRP bp) then Some bp
         else if bp = free_listp s then Some NULL
         else find_fit_loop s asize (fb_next s bp))
      else Some NULL)"

definition find_fit :: "heap \<Rightarrow> word64 \<Rightarrow> word64 option" where
  "find_fit s asize = find_fit_loop s asize (fb_next s (free_listp s))"

section \<open>The four entry points\<close>

definition mm_init :: "heap \<Rightarrow> int \<times> heap" where
  "mm_init s =
     (let (p, s0) = mem_sbrk s (8 * WSIZE);
          s1 = s0\<lparr>heap_listp := p\<rparr>
      in if p = - 1 then (- 1, s1)
         else
           (let s2 = s1\<lparr>free_listp := heap_listp s1 + 4 * WSIZE\<rparr>;
                s3 = PUT s2 (heap_listp s2) 0;
                s4 = PUT s3 (heap_listp s3 + 1 * WSIZE) (PACK DSIZE 1);
                s5 = PUT s4 (heap_listp s4 + 2 * WSIZE) (PACK DSIZE 1);
                s6 = PUT s5 (heap_listp s5 + 3 * WSIZE) (PACK (4 * WSIZE) 1);
                s7 = PUT s6 (heap_listp s6 + 4 * WSIZE) (free_listp s6);
                s8 = PUT s7 (heap_listp s7 + 5 * WSIZE) (free_listp s7);
                s9 = PUT s8 (heap_listp s8 + 6 * WSIZE) (PACK (4 * WSIZE) 1);
                s10 = PUT s9 (heap_listp s9 + 7 * WSIZE) (PACK 0 1);
                s11 = s10\<lparr>heap_listp := heap_listp s10 + 2 * WSIZE\<rparr>;
                (bp, s12) = extend_heap s11 (CHUNKSIZE div WSIZE)
            in if bp = NULL then (- 1, s12) else (0, s12)))"

text \<open>The adjusted block size of \<^verbatim>\<open>mm_malloc\<close>, with its two hard-coded cases.\<close>

definition malloc_asize :: "word64 \<Rightarrow> word64" where
  "malloc_asize sz =
     (let asize = (if sz \<le> DSIZE then 2 * DSIZE
                   else DSIZE * ((sz + DSIZE + (DSIZE - 1)) div DSIZE));
          asize = (if sz = 448 then 528 else asize);
          asize = (if sz = 112 then 144 else asize)
      in asize)"

definition mm_malloc :: "heap \<Rightarrow> word64 \<Rightarrow> (word64 \<times> heap) option" where
  "mm_malloc s sz =
     (if sz \<le> 0 then Some (NULL, s)
      else
        (let asize = malloc_asize sz
         in do {
           bp \<leftarrow> find_fit s asize;
           if bp \<noteq> NULL then Some (bp, place s bp asize)
           else
             (let extendsize = MAX_c asize CHUNKSIZE;
                  (bp, s1) = extend_heap s (extendsize div WSIZE)
              in if bp = NULL then Some (NULL, s1)
                 else Some (bp, place s1 bp asize))
         }))"

definition mm_free :: "heap \<Rightarrow> word64 \<Rightarrow> heap" where
  "mm_free s bp =
     (if bp = NULL then s
      else
        (let sz = GET_SIZE s (HDRP bp);
             s1 = PUT s (HDRP bp) (PACK sz 0);
             s2 = PUT s1 (FTRP s1 bp) (PACK sz 0)
         in snd (coalesce s2 bp)))"

text \<open>\<^verbatim>\<open>memcpy(dst, src, n)\<close> on the word-granular memory: every word of the \<open>n\<close> bytes
  from \<open>dst\<close> receives the word at the same offset from \<open>src\<close>, read before the copy.
  The byte counts that \<^verbatim>\<open>mm_realloc\<close> passes are multiples of the word size.\<close>

definition memcpy :: "heap \<Rightarrow> word64 \<Rightarrow> word64 \<Rightarrow> word64 \<Rightarrow> heap" where
  "memcpy s dst src n =
     s\<lparr>mem := (\<lambda>a. if a - dst < n \<and> (a - dst) mod WSIZE = 0
                    then mem s (src + (a - dst)) else mem s a)\<rparr>"

definition realloc_asize :: "word64 \<Rightarrow> word64" where
  "realloc_asize sz = MAX_c (ROUND sz + DSIZE) 24"

text \<open>In the last branch \<^verbatim>\<open>mm_realloc\<close> passes the result of \<^verbatim>\<open>mm_malloc\<close> to
  \<^verbatim>\<open>place\<close> without a test; when it is \<^verbatim>\<open>NULL\<close> the C code reads through a null
  pointer and does not return a result, which the model gives as \<open>None\<close>.\<close>

definition mm_realloc :: "heap \<Rightarrow> word64 \<Rightarrow> word64 \<Rightarrow> (word64 \<times> heap) option" where
  "mm_realloc s ptr sz =
     (let asize = realloc_asize sz
      in if sz = 0 then Some (NULL, mm_free s ptr)
         else if ptr = NULL then mm_malloc s asize
         else
           (let oldsize = GET_SIZE s (HDRP ptr)
            in if asize \<le> oldsize then Some (ptr, s)
               else
                 (let esize = oldsize + GET_SIZE s (HDRP (NEXT_BLKP s ptr))
                  in if GET_ALLOC s (HDRP (NEXT_BLKP s ptr)) = 0 \<and> esize \<ge> asize then
                       (let s1 = remove_free s (NEXT_BLKP s ptr);
                            s2 = PUT s1 (HDRP ptr) (PACK esize 1);
                            s3 = PUT s2 (FTRP s2 ptr) (PACK esize 1)
                        in Some (ptr, s3))
                     else do {
                       (newptr, s1) \<leftarrow> mm_malloc s asize;
                       if newptr = NULL then None
                       else
                         (let s2 = place s1 newptr asize;
                              s3 = memcpy s2 newptr ptr asize
                          in Some (newptr, mm_free s3 ptr))
                     })))"


section \<open>Notions of the specification\<close>

text \<open>Rounding up to a multiple, in exact arithmetic, and the two adjusted sizes as the
  specification words them: \<open>max(min_block, round_up(n + 2 WSIZE, 2 WSIZE))\<close> for
  allocate and \<open>max(round_up(size, 8) + DSIZE, 24)\<close> for reallocate.\<close>

definition round_up :: "nat \<Rightarrow> nat \<Rightarrow> nat" where
  "round_up n m = ((n + m - 1) div m) * m"

definition asize_spec :: "nat \<Rightarrow> nat" where
  "asize_spec n = max (2 * unat DSIZE) (round_up (n + 2 * unat WSIZE) (2 * unat WSIZE))"

definition realloc_asize_spec :: "nat \<Rightarrow> nat" where
  "realloc_asize_spec n = max (round_up n 8 + unat DSIZE) 24"

text \<open>The walk of \<^verbatim>\<open>checkheap\<close> over the blocks, from a block pointer up to the first
  header of size zero, bounded by a number of steps.\<close>

fun heap_walk :: "nat \<Rightarrow> heap \<Rightarrow> word64 \<Rightarrow> word64 list" where
  "heap_walk 0 s bp = []"
| "heap_walk (Suc n) s bp =
     (if GET_SIZE s (HDRP bp) > 0 then bp # heap_walk n s (NEXT_BLKP s bp) else [])"

text \<open>The walk of \<^verbatim>\<open>check_freeblocks_free\<close> over the free list, from a node along the
  \<^verbatim>\<open>next\<close> links until the sentinel is met, bounded by a number of steps.\<close>

fun free_walk :: "nat \<Rightarrow> heap \<Rightarrow> word64 \<Rightarrow> word64 list" where
  "free_walk 0 s bp = []"
| "free_walk (Suc n) s bp =
     (if bp = free_listp s then [] else bp # free_walk n s (fb_next s bp))"

text \<open>A chain of links: following \<open>f\<close> from \<open>p\<close> visits exactly \<open>xs\<close> and then
  arrives at \<open>q\<close>.\<close>

fun chain :: "('a \<Rightarrow> 'a) \<Rightarrow> 'a \<Rightarrow> 'a list \<Rightarrow> 'a \<Rightarrow> bool" where
  "chain f p [] q \<longleftrightarrow> f p = q"
| "chain f p (x # xs) q \<longleftrightarrow> f p = x \<and> chain f x xs q"

definition aligned :: "word64 \<Rightarrow> bool" where
  "aligned bp \<longleftrightarrow> bp mod DSIZE = 0"

text \<open>The circular free list holds exactly the block pointers \<open>xs\<close>, in this order: the
  \<^verbatim>\<open>next\<close> links lead from the sentinel through \<open>xs\<close> back to the sentinel, the
  \<^verbatim>\<open>prev\<close> links lead back the same way, no node occurs twice, and every node is
  aligned to a double word (what \<^verbatim>\<open>checkblock\<close> tests).\<close>

definition free_list :: "heap \<Rightarrow> word64 list \<Rightarrow> bool" where
  "free_list s xs \<longleftrightarrow>
     chain (fb_next s) (free_listp s) xs (free_listp s) \<and>
     chain (fb_prev s) (free_listp s) (rev xs) (free_listp s) \<and>
     distinct (free_listp s # xs) \<and>
     (\<forall>x \<in> set (free_listp s # xs). aligned x)"

text \<open>The blocks with the given block pointers have at least the minimum block size
  and do not overlap: seen from any of them, every other one lies at or beyond its end
  (distances are taken in the address arithmetic of the machine word).\<close>

definition disjoint_blocks :: "heap \<Rightarrow> word64 set \<Rightarrow> bool" where
  "disjoint_blocks s X \<longleftrightarrow>
     (\<forall>x \<in> X. 2 * DSIZE \<le> GET_SIZE s (HDRP x) \<and>
        (\<forall>y \<in> X. x \<noteq> y \<longrightarrow> GET_SIZE s (HDRP x) \<le> y - x))"

section \<open>Concrete heaps\<close>

text \<open>An untouched region of 64 KiB starting at address \<open>0x10000\<close>, and the heaps that
  runs of the entry points build in it.\<close>

definition heap0 :: heap where
  "heap0 = \<lparr>mem = (\<lambda>_. 0), mem_brk = 0x10000, mem_max_addr = 0x20000,
             heap_listp = 0, free_listp = 0\<rparr>"

definition heap_init :: heap where
  "heap_init = snd (mm_init heap0)"

text \<open>The heap after \<^verbatim>\<open>mm_init\<close> and a request that takes the whole first chunk: its
  free list is empty.\<close>

definition heap_used :: heap where
  "heap_used = (case mm_malloc heap_init 4080 of Some (p, s) \<Rightarrow> s | None \<Rightarrow> heap_init)"

text \<open>Regions in which the extender has no room left: for the initialised heap, before
  initialisation, and after the first of the two requests of \<^verbatim>\<open>mm_init\<close>.\<close>

definition heap_full :: heap where
  "heap_full = heap_init\<lparr>mem_max_addr := 0x11040\<rparr>"

definition heap_no_room :: heap where
  "heap_no_room = heap0\<lparr>mem_max_addr := 0x10000\<rparr>"

definition heap_small_room :: heap where
  "heap_small_room = heap0\<lparr>mem_max_addr := 0x10040\<rparr>"

text \<open>The heap after \<^verbatim>\<open>mm_init\<close> and two requests of 64 bytes; the first returns
  \<open>0x10040\<close>, the second \<open>0x10090\<close>.\<close>

definition heap_two :: heap where
  "heap_two =
     (case mm_malloc heap_init 64 of
        Some (p, s1) \<Rightarrow> (case mm_malloc s1 64 of Some (q, s2) \<Rightarrow> s2 | None \<Rightarrow> heap_init)
      | None \<Rightarrow> heap_init)"

text \<open>Memory on the copy path of \<^verbatim>\<open>mm_realloc\<close>, called on \<open>heap_two\<close> for the first
  block: after \<^verbatim>\<open>mm_malloc\<close> and the second \<^verbatim>\<open>place\<close>, just before \<^verbatim>\<open>memcpy\<close>, for a
  new size of 1024 bytes and for one of 420 bytes.\<close>

definition mem_placed_1024 :: "word64 \<Rightarrow> word64" where
  "mem_placed_1024 = (\<lambda>_. 0)(65544 := 17, 65552 := 17, 65560 := 33, 65568 := 65568,
     65576 := 65568, 65584 := 33, 65592 := 81, 65600 := 65568, 65608 := 65568, 65664 := 81,
     65672 := 81, 65680 := 65568, 65688 := 65568, 65744 := 81, 65752 := 1073,
     65760 := 65568, 65768 := 65568, 66816 := 1073, 66824 := 2864, 66832 := 65568,
     66840 := 65568, 69680 := 2864, 69688 := 1)"

definition mem_placed_420 :: "word64 \<Rightarrow> word64" where
  "mem_placed_420 = (\<lambda>_. 0)(65544 := 17, 65552 := 17, 65560 := 33, 65568 := 66208,
     65576 := 66208, 65584 := 33, 65592 := 81, 65600 := 65568, 65608 := 65568, 65664 := 81,
     65672 := 81, 65680 := 65568, 65688 := 65568, 65744 := 81, 65752 := 449,
     65760 := 65568, 65768 := 65568, 66192 := 449, 66200 := 80, 66208 := 65568,
     66216 := 65568, 66272 := 80, 66280 := 3408, 66288 := 65568, 66296 := 65568,
     69680 := 3408, 69688 := 1)"

text \<open>\<open>heap_two\<close> after \<^verbatim>\<open>mm_free\<close> of its first block, and the state in which
  \<^verbatim>\<open>mm_free\<close> of the second block, at \<open>0x10090\<close>, then calls \<^verbatim>\<open>coalesce\<close>: header and
  footer of the block rewritten with the allocated bit cleared. Both physical neighbours of
  that block are free.\<close>

definition heap_two_freed :: heap where
  "heap_two_freed = mm_free heap_two 0x10040"

definition heap_two_marked :: heap where
  "heap_two_marked =
     (let sz = GET_SIZE heap_two_freed (HDRP 0x10090);
          s1 = PUT heap_two_freed (HDRP 0x10090) (PACK sz 0)
      in PUT s1 (FTRP s1 0x10090) (PACK sz 0))"

section \<open>Evaluation\<close>

lemmas mm_defs = WSIZE_def DSIZE_def CHUNKSIZE_def NULL_def MAX_c_def PACK_def GET_def PUT_def
  GET_SIZE_def GET_ALLOC_def HDRP_def FTRP_def NEXT_BLKP_def PREV_BLKP_def ROUND_def
  fb_prev_def fb_next_def set_prev_def set_next_def mem_sbrk_def add_free_def remove_free_def
  coalesce_def extend_heap_def place_def find_fit_def mm_init_def malloc_asize_def mm_malloc_def
  mm_free_def memcpy_def realloc_asize_def mm_realloc_def

lemma bind_weak_cong: "x = y \<Longrightarrow> Option.bind x f = Option.bind y f"
  by simp

lemmas find_fit_loop_num = find_fit_loop.simps [of _ _ "numeral n" for n]

lemma heap_init_eq:
  "heap_init = \<lparr>mem = (\<lambda>_. 0)(0x10008 := 17, 0x10010 := 17, 0x10018 := 33,
       0x10020 := 0x10040, 0x10028 := 0x10040, 0x10030 := 33, 0x10038 := 4096,
       0x10040 := 0x10020, 0x10048 := 0x10020, 0x11030 := 4096, 0x11038 := 1),
     mem_brk = 0x11040, mem_max_addr = 0x20000, heap_listp = 0x10010, free_listp = 0x10020\<rparr>"
  unfolding heap_init_def
  apply (simp add: heap0_def mm_defs Let_def
      cong: let_weak_cong prod.case_cong_weak bind_weak_cong)
  apply (auto simp: fun_eq_iff)
  done

section \<open>Adjusted sizes\<close>

text \<open>Claim C4. The specification gives the adjusted request of reallocate as
  \<open>max(round_up(size, 8) + DSIZE, 24)\<close> in exact arithmetic. The macro \<^verbatim>\<open>ROUND\<close> adds
  \<open>DSIZE - 1 = 15\<close> before it clears the low three bits, so it does not round up to the
  next multiple of 8: for a request of one byte the code computes 32 where the formula
  gives 24.\<close>

theorem realloc_asize_at_1:
  "unat (realloc_asize 1) = 32 \<and> realloc_asize_spec (unat (1 :: word64)) = 24"
  by (simp add: realloc_asize_def ROUND_def MAX_c_def DSIZE_def WSIZE_def
      realloc_asize_spec_def round_up_def)

lemma heap_used_eq:
  "heap_used = \<lparr>mem = (\<lambda>_. 0)(0x10008 := 17, 0x10010 := 17, 0x10018 := 33,
       0x10020 := 0x10020, 0x10028 := 0x10020, 0x10030 := 33, 0x10038 := 4097,
       0x10040 := 0x10020, 0x10048 := 0x10020, 0x11030 := 4097, 0x11038 := 1),
     mem_brk = 0x11040, mem_max_addr = 0x20000, heap_listp = 0x10010, free_listp = 0x10020\<rparr>"
  unfolding heap_used_def
  apply (simp add: heap_init_eq find_fit_loop_num mm_defs Let_def
      cong: let_weak_cong prod.case_cong_weak bind_weak_cong)
  apply (auto simp: fun_eq_iff)
  done

lemma heap_two_eq:
  "heap_two = \<lparr>mem = (\<lambda>_. 0)(65544 := 17, 65552 := 17, 65560 := 33, 65568 := 65760,
       65576 := 65760, 65584 := 33, 65592 := 81, 65600 := 65568, 65608 := 65568, 65664 := 81,
       65672 := 81, 65680 := 65568, 65688 := 65568, 65744 := 81, 65752 := 3936,
       65760 := 65568, 65768 := 65568, 69680 := 3936, 69688 := 1),
     mem_brk = 0x11040, mem_max_addr = 0x20000, heap_listp = 0x10010, free_listp = 0x10020\<rparr>"
  unfolding heap_two_def
  apply (simp add: heap_init_eq find_fit_loop_num mm_defs Let_def
      cong: let_weak_cong prod.case_cong_weak bind_weak_cong)
  apply (auto simp: fun_eq_iff)
  done

lemma heap_two_freed_eq:
  "heap_two_freed = \<lparr>mem = (\<lambda>_. 0)(65544 := 17, 65552 := 17, 65560 := 33, 65568 := 65760,
       65584 := 33, 65672 := 81, 65680 := 65568, 65688 := 65568, 65744 := 81, 65752 := 3936,
       65768 := 65568, 69680 := 3936, 69688 := 1, 65592 := 80, 65664 := 80, 65760 := 65600,
       65608 := 65760, 65600 := 65568, 65576 := 65600),
     mem_brk = 0x11040, mem_max_addr = 0x20000, heap_listp = 0x10010, free_listp = 0x10020\<rparr>"
  unfolding heap_two_freed_def
  by (simp add: heap_two_eq mm_defs Let_def
      cong: let_weak_cong prod.case_cong_weak bind_weak_cong)

lemma malloc_asize_formula:
  assumes "sz \<noteq> 448" "sz \<noteq> 112" "unat sz + 31 < 2 ^ 64"
  shows "unat (malloc_asize sz) = asize_spec (unat sz)"
proof (cases "sz \<le> 16")
  case True
  then have "unat sz \<le> 16" by (simp add: word_le_nat_alt)
  then have "asize_spec (unat sz) = 32"
    by (simp add: asize_spec_def round_up_def DSIZE_def WSIZE_def max_def) arith
  moreover have "malloc_asize sz = 32"
    using True assms by (simp add: malloc_asize_def DSIZE_def WSIZE_def)
  ultimately show ?thesis by simp
next
  case False
  then have gt: "16 < unat sz" by (simp add: word_le_nat_alt not_le)
  have u1: "unat (sz + 31) = unat sz + 31"
    using assms(3) by (simp add: unat_word_ariths)
  have u2: "unat ((sz + 31) div 16) = (unat sz + 31) div 16"
    by (simp add: unat_div u1)
  have u3: "unat (16 * ((sz + 31) div 16)) = 16 * ((unat sz + 31) div 16)"
    using assms(3) by (simp add: unat_word_ariths u2)
  have "malloc_asize sz = 16 * ((sz + 31) div 16)"
    using False assms by (simp add: malloc_asize_def DSIZE_def WSIZE_def add.assoc)
  moreover have "asize_spec (unat sz) = 16 * ((unat sz + 31) div 16)"
    using gt by (simp add: asize_spec_def round_up_def DSIZE_def WSIZE_def max_def) arith
  ultimately show ?thesis using u3 by simp
qed

section \<open>Reallocate with a null pointer\<close>

text \<open>Claim C5, as the specification states it: for every non-zero size,
  \<open>reallocate(null, size)\<close> returns the same result and leaves the same heap as
  \<open>allocate(size)\<close>. On the freshly initialised heap a request of one byte separates
  the two: \<^verbatim>\<open>mm_realloc\<close> leaves a block of 48 bytes, \<^verbatim>\<open>mm_malloc\<close> one of 32.\<close>

theorem realloc_null_differs_from_malloc:
  "mm_realloc heap_init NULL 1 \<noteq> mm_malloc heap_init 1"
proof
  assume eq: "mm_realloc heap_init NULL 1 = mm_malloc heap_init 1"
  have a: "map_option (\<lambda>r. mem (snd r) 0x10038) (mm_realloc heap_init NULL 1) = Some 49"
    by (simp add: heap_init_eq find_fit_loop_num mm_defs Let_def
      cong: let_weak_cong prod.case_cong_weak bind_weak_cong)
  have b: "map_option (\<lambda>r. mem (snd r) 0x10038) (mm_malloc heap_init 1) = Some 33"
    by (simp add: heap_init_eq find_fit_loop_num mm_defs Let_def
      cong: let_weak_cong prod.case_cong_weak bind_weak_cong)
  from a b eq show False by simp
qed

text \<open>Claim C5, amended: for every non-zero size, \<open>reallocate(null, size)\<close> is
  \<open>allocate(asize)\<close>, where \<open>asize\<close> is the adjusted request size that \<^verbatim>\<open>mm_realloc\<close>
  itself computes from \<open>size\<close> before it looks at the pointer (\<open>realloc_asize\<close>): the
  same result and the same heap as that call, and nothing more is stated of the block.\<close>

theorem realloc_null_is_malloc_of_asize:
  "sz \<noteq> 0 \<Longrightarrow> mm_realloc s NULL sz = mm_malloc s (realloc_asize sz)"
  by (simp add: mm_realloc_def Let_def)

theorem realloc_null_is_malloc_of_asize_witness:
  "(1 :: word64) \<noteq> 0 \<and> mm_realloc heap_init NULL 1 = mm_malloc heap_init (realloc_asize 1)"
  using realloc_null_is_malloc_of_asize [of 1 heap_init] by simp

section \<open>The empty free list\<close>

text \<open>Claim C10. When the sentinel's \<^verbatim>\<open>next\<close> link points to the sentinel itself and
  the sentinel's header has its allocated bit set, \<^verbatim>\<open>find_fit\<close> returns \<^verbatim>\<open>NULL\<close>
  whatever the rest of memory holds: the loop condition fails on its first test, at the
  sentinel's header, and no link of a free block is followed. A non-zero \<^verbatim>\<open>mm_malloc\<close>
  then goes on to extend the heap.\<close>

theorem find_fit_empty_list:
  assumes "fb_next s (free_listp s) = free_listp s"
    and "GET_ALLOC s (HDRP (free_listp s)) = 1"
  shows "find_fit s asize = Some NULL \<and>
         (sz \<noteq> 0 \<longrightarrow> mm_malloc s sz =
            (let (bp, s1) = extend_heap s (MAX_c (malloc_asize sz) CHUNKSIZE div WSIZE)
             in if bp = NULL then Some (NULL, s1)
                else Some (bp, place s1 bp (malloc_asize sz))))"
proof -
  have "find_fit s a = Some NULL" for a
    using assms by (simp add: find_fit_def find_fit_loop.simps)
  then show ?thesis by (simp add: mm_malloc_def Let_def)
qed

theorem find_fit_empty_list_witness:
  "fb_next heap_used (free_listp heap_used) = free_listp heap_used \<and>
   GET_ALLOC heap_used (HDRP (free_listp heap_used)) = 1 \<and>
   find_fit heap_used 32 = Some NULL \<and>
   map_option fst (mm_malloc heap_used 1) = Some 0x11040"
proof -
  have h1: "fb_next heap_used (free_listp heap_used) = free_listp heap_used"
    by (simp add: heap_used_eq fb_next_def GET_def WSIZE_def)
  have h2: "GET_ALLOC heap_used (HDRP (free_listp heap_used)) = 1"
    by (simp add: heap_used_eq GET_ALLOC_def HDRP_def GET_def WSIZE_def)
  have "map_option fst (let (bp, s1) = extend_heap heap_used (MAX_c (malloc_asize 1) CHUNKSIZE div WSIZE)
             in if bp = NULL then Some (NULL, s1)
                else Some (bp, place s1 bp (malloc_asize 1))) = Some 0x11040"
    by (simp add: heap_used_eq mm_defs Let_def
      cong: let_weak_cong prod.case_cong_weak bind_weak_cong)
  with find_fit_empty_list [OF h1 h2, of 32 1] h1 h2 show ?thesis by simp
qed

section \<open>Failure of the region extender\<close>

lemma unat_m1: "unat (- 1 :: word64) = 18446744073709551615"
  by (simp add: unsigned_minus_1_eq_mask mask_eq_exp_minus_1)

lemma below_neq:
  assumes "a < b" and "unat b + unat k < 2 ^ 64"
  shows "a \<noteq> b + (k :: word64)"
proof
  assume "a = b + k"
  moreover have "unat (b + k) = unat b + unat k"
    using assms(2) by (simp add: unat_add_lem [THEN iffD1])
  ultimately have "unat b \<le> unat a" by simp
  with assms(1) show False by (simp add: word_less_nat_alt)
qed

lemma mem_sbrk_fail: "fst (mem_sbrk s n) = - 1 \<Longrightarrow> mem_sbrk s n = (- 1, s)"
proof (cases "unat (mem_brk s) + unat n > unat (mem_max_addr s)")
  case True
  then show ?thesis by (simp add: mem_sbrk_def)
next
  case False
  assume "fst (mem_sbrk s n) = - 1"
  with False have b: "mem_brk s = - 1" by (simp add: mem_sbrk_def)
  have "unat (mem_max_addr s) < 2 ^ 64" using unsigned_less [of "mem_max_addr s"] by simp
  with False b have "unat n = 0" by (simp add: unat_m1)
  then have "n = 0" by (simp add: unat_eq_0)
  with False b show ?thesis by (simp add: mem_sbrk_def)
qed

lemma extend_heap_fail:
  "fst (mem_sbrk s (if w mod 2 \<noteq> 0 then (w + 1) * WSIZE else w * WSIZE)) = - 1
    \<Longrightarrow> extend_heap s w = (NULL, s)"
  by (drule mem_sbrk_fail) (simp add: extend_heap_def Let_def)

lemma malloc_oom:
  assumes "sz \<noteq> 0" and "find_fit s (malloc_asize sz) = Some NULL"
    and "fst (mem_sbrk s (let w = MAX_c (malloc_asize sz) CHUNKSIZE div WSIZE
                          in if w mod 2 \<noteq> 0 then (w + 1) * WSIZE else w * WSIZE)) = - 1"
  shows "mm_malloc s sz = Some (NULL, s)"
  using assms extend_heap_fail [of s "MAX_c (malloc_asize sz) CHUNKSIZE div WSIZE"]
  by (simp add: mm_malloc_def Let_def)

lemma init_oom_first:
  assumes "fst (mem_sbrk s (8 * WSIZE)) = - 1"
  shows "mm_init s = (- 1, s\<lparr>heap_listp := - 1\<rparr>)"
  using mem_sbrk_fail [OF assms] by (simp add: mm_init_def Let_def)

lemma init_oom_second:
  assumes ok: "fst (mem_sbrk s (8 * WSIZE)) \<noteq> - 1"
    and fail: "fst (mem_sbrk (snd (mem_sbrk s (8 * WSIZE))) CHUNKSIZE) = - 1"
  shows "fst (mm_init s) = - 1 \<and> (\<forall>a. a < mem_brk s \<longrightarrow> mem (snd (mm_init s)) a = mem s a)"
proof -
  from ok have le: "unat (mem_brk s) + 64 \<le> unat (mem_max_addr s)"
    by (auto simp: mem_sbrk_def WSIZE_def split: if_splits)
  then have s1: "mem_sbrk s (8 * WSIZE) = (mem_brk s, s\<lparr>mem_brk := mem_brk s + 64\<rparr>)"
    by (simp add: mem_sbrk_def WSIZE_def)
  have lt: "unat (mem_max_addr s) < 2 ^ 64" using unsigned_less [of "mem_max_addr s"] by simp
  have nm: "mem_brk s \<noteq> - 1" using le lt by (auto simp: unat_m1)
  have u64: "unat (mem_brk s + 64) = unat (mem_brk s) + 64"
    using le lt by (simp add: unat_word_ariths)
  from fail have fail': "fst (mem_sbrk (s\<lparr>mem_brk := mem_brk s + 64\<rparr>) CHUNKSIZE) = - 1"
    by (simp add: s1)
  have f2: "unat (mem_max_addr s) < unat (mem_brk s) + 64 + 4096"
  proof (rule ccontr)
    assume n: "\<not> unat (mem_max_addr s) < unat (mem_brk s) + 64 + 4096"
    then have "fst (mem_sbrk (s\<lparr>mem_brk := mem_brk s + 64\<rparr>) CHUNKSIZE) = mem_brk s + 64"
      by (simp add: mem_sbrk_def CHUNKSIZE_def u64)
    with fail' have "mem_brk s + 64 = - 1" by simp
    then have "unat (mem_brk s + 64) = 18446744073709551615" by (simp only: unat_m1)
    with u64 n lt show False by simp
  qed
  have ge: "a \<noteq> mem_brk s + k" if "a < mem_brk s" "unat k < 64" for a k
    using that le lt by (intro below_neq) simp_all
  have r: "mm_init s = (- 1,
      \<lparr>mem = (mem s)(mem_brk s := 0, mem_brk s + 8 := 17, mem_brk s + 16 := 17,
          mem_brk s + 24 := 33, mem_brk s + 32 := mem_brk s + 32,
          mem_brk s + 40 := mem_brk s + 32, mem_brk s + 48 := 33, mem_brk s + 56 := 1),
        mem_brk = mem_brk s + 64, mem_max_addr = mem_max_addr s,
        heap_listp = mem_brk s + 16, free_listp = mem_brk s + 32\<rparr>)"
    using nm f2 le
    by (simp add: mm_init_def s1 Let_def extend_heap_def mem_sbrk_def PUT_def WSIZE_def DSIZE_def
        CHUNKSIZE_def PACK_def NULL_def u64 cong: let_weak_cong prod.case_cong_weak)
  show ?thesis
  proof (intro conjI allI impI)
    show "fst (mm_init s) = - 1" by (simp add: r)
  next
    fix a assume a: "a < mem_brk s"
    have "a \<noteq> mem_brk s + 0" "a \<noteq> mem_brk s + 8" "a \<noteq> mem_brk s + 16" "a \<noteq> mem_brk s + 24"
      "a \<noteq> mem_brk s + 32" "a \<noteq> mem_brk s + 40" "a \<noteq> mem_brk s + 48" "a \<noteq> mem_brk s + 56"
      using ge [OF a, of 0] ge [OF a, of 8] ge [OF a, of 16] ge [OF a, of 24]
        ge [OF a, of 32] ge [OF a, of 40] ge [OF a, of 48] ge [OF a, of 56] by simp_all
    then show "mem (snd (mm_init s)) a = mem s a" by (simp add: r)
  qed
qed

text \<open>Claim C9. Whenever the region extender returns its error value, \<^verbatim>\<open>mm_malloc\<close>
  returns \<^verbatim>\<open>NULL\<close> and \<^verbatim>\<open>mm_init\<close> returns \<open>-1\<close>, and no block of the heap is
  altered. For \<^verbatim>\<open>mm_malloc\<close> (no fit in the free list, the extension fails) the whole
  state is the one before the call. For \<^verbatim>\<open>mm_init\<close>, when its first request fails
  memory and break are untouched (only the global \<^verbatim>\<open>heap_listp\<close> holds the error
  value); when its first request succeeds and the second, made by \<^verbatim>\<open>extend_heap\<close>,
  fails, every word below the old break, hence every header, footer, payload and link
  of every block that existed, is as before.\<close>

theorem oom_alters_no_block:
  "(sz \<noteq> 0 \<and> find_fit s (malloc_asize sz) = Some NULL \<and>
    fst (mem_sbrk s (let w = MAX_c (malloc_asize sz) CHUNKSIZE div WSIZE
                     in if w mod 2 \<noteq> 0 then (w + 1) * WSIZE else w * WSIZE)) = - 1
      \<longrightarrow> mm_malloc s sz = Some (NULL, s)) \<and>
   (fst (mem_sbrk t (8 * WSIZE)) = - 1 \<longrightarrow> mm_init t = (- 1, t\<lparr>heap_listp := - 1\<rparr>)) \<and>
   (fst (mem_sbrk u (8 * WSIZE)) \<noteq> - 1 \<and>
    fst (mem_sbrk (snd (mem_sbrk u (8 * WSIZE))) CHUNKSIZE) = - 1
      \<longrightarrow> fst (mm_init u) = - 1 \<and>
          (\<forall>a. a < mem_brk u \<longrightarrow> mem (snd (mm_init u)) a = mem u a))"
  using malloc_oom [of sz s] init_oom_first [of t] init_oom_second [of u] by blast

theorem oom_alters_no_block_witness:
  "((5000 :: word64) \<noteq> 0 \<and> find_fit heap_full (malloc_asize 5000) = Some NULL \<and>
    fst (mem_sbrk heap_full (let w = MAX_c (malloc_asize 5000) CHUNKSIZE div WSIZE
                     in if w mod 2 \<noteq> 0 then (w + 1) * WSIZE else w * WSIZE)) = - 1 \<and>
    mm_malloc heap_full 5000 = Some (NULL, heap_full)) \<and>
   (fst (mem_sbrk heap_no_room (8 * WSIZE)) = - 1 \<and>
    mm_init heap_no_room = (- 1, heap_no_room\<lparr>heap_listp := - 1\<rparr>)) \<and>
   (fst (mem_sbrk heap_small_room (8 * WSIZE)) \<noteq> - 1 \<and>
    fst (mem_sbrk (snd (mem_sbrk heap_small_room (8 * WSIZE))) CHUNKSIZE) = - 1 \<and>
    fst (mm_init heap_small_room) = - 1 \<and>
    (0xFFF8 :: word64) < mem_brk heap_small_room \<and>
    mem (snd (mm_init heap_small_room)) 0xFFF8 = mem heap_small_room 0xFFF8)"
proof -
  have a1: "find_fit heap_full (malloc_asize 5000) = Some NULL"
    by (simp add: heap_full_def heap_init_eq find_fit_loop_num mm_defs Let_def
      cong: let_weak_cong prod.case_cong_weak bind_weak_cong)
  have a2: "fst (mem_sbrk heap_full (let w = MAX_c (malloc_asize 5000) CHUNKSIZE div WSIZE
                     in if w mod 2 \<noteq> 0 then (w + 1) * WSIZE else w * WSIZE)) = - 1"
    by (simp add: heap_full_def heap_init_eq mm_defs Let_def cong: let_weak_cong)
  have b1: "fst (mem_sbrk heap_no_room (8 * WSIZE)) = - 1"
    by (simp add: heap_no_room_def heap0_def mm_defs)
  have c1: "fst (mem_sbrk heap_small_room (8 * WSIZE)) \<noteq> - 1"
    by (simp add: heap_small_room_def heap0_def mm_defs)
  have c2: "fst (mem_sbrk (snd (mem_sbrk heap_small_room (8 * WSIZE))) CHUNKSIZE) = - 1"
    by (simp add: heap_small_room_def heap0_def mm_defs)
  have c3: "(0xFFF8 :: word64) < mem_brk heap_small_room"
    by (simp add: heap_small_room_def heap0_def)
  show ?thesis
    using oom_alters_no_block [of 5000 heap_full heap_no_room heap_small_room] a1 a2 b1 c1 c2 c3
    by simp
qed

section \<open>Alignment and the packing of size and allocated bit\<close>

lemma mask4: "(15 :: word64) = mask 4" by (simp add: mask_eq_exp_minus_1)

lemma aligned_take_bit: "aligned x \<longleftrightarrow> take_bit 4 x = 0"
  by (simp add: aligned_def DSIZE_def WSIZE_def take_bit_eq_mod)

lemma aligned_bit: "aligned x \<Longrightarrow> n < 4 \<Longrightarrow> \<not> bit x n"
proof
  assume a: "aligned x" "n < 4" "bit x n"
  then have "bit (take_bit 4 x) n" by (simp add: bit_take_bit_iff)
  with a show False by (simp add: aligned_take_bit)
qed

lemma aligned_dvd: "aligned x \<longleftrightarrow> 16 dvd x"
  using take_bit_eq_0_iff [of 4 x] by (simp add: aligned_take_bit)

lemma aligned_unat: "aligned x \<longleftrightarrow> unat x mod 16 = 0"
  by (simp add: aligned_def DSIZE_def WSIZE_def word_eq_iff_unsigned [where ?'a = nat] unat_mod_distrib)

lemma size_of_PACK_1: "aligned x \<Longrightarrow> (x OR 1) AND NOT 15 = x"
  apply (rule bit_eqI)
  apply (auto simp: bit_simps mask4 dest: aligned_bit)
  done

lemma size_of_PACK_0: "aligned x \<Longrightarrow> (x OR 0) AND NOT 15 = x"
  apply (rule bit_eqI)
  apply (auto simp: bit_simps mask4 dest: aligned_bit)
  done

lemma aligned_mask: "aligned (x AND NOT 15)"
  apply (simp add: aligned_take_bit mask4)
  apply (rule bit_eqI)
  apply (auto simp: bit_simps)
  done

lemma alloc_of_PACK_1: "(x OR 1) AND 1 = (1 :: word64)"
  apply (rule bit_eqI)
  apply (auto simp: bit_simps)
  done

lemma alloc_of_aligned: "aligned x \<Longrightarrow> x AND 1 = 0"
proof (rule bit_eqI)
  fix n
  assume "aligned x"
  then have "\<not> bit x 0" by (rule aligned_bit) simp
  then show "bit (x AND 1) n \<longleftrightarrow> bit (0 :: word64) n"
    by (cases "n = 0") (auto simp: bit_simps)
qed

lemma not15: "NOT (15 :: word64) = - 16" by simp

lemma size_PACK_1: "aligned x \<Longrightarrow> (x OR 1) AND - 16 = x"
  using size_of_PACK_1 [of x] by (simp only: not15)

lemma size_PACK_0: "aligned x \<Longrightarrow> x AND - 16 = x"
  using size_of_PACK_0 [of x] by (simp only: not15 or.right_neutral)

lemma aligned_GET_SIZE: "aligned (GET_SIZE s p)"
  using aligned_mask [of "GET s p"] by (simp add: GET_SIZE_def DSIZE_def WSIZE_def)

lemma aligned_add: "aligned x \<Longrightarrow> aligned y \<Longrightarrow> aligned (x + y)"
  by (simp add: aligned_dvd)

lemma aligned_diff: "aligned x \<Longrightarrow> aligned y \<Longrightarrow> aligned (x - y)"
  by (simp add: aligned_dvd)

lemma aligned_ge16: "aligned x \<Longrightarrow> x \<noteq> 0 \<Longrightarrow> 16 \<le> x"
  apply (simp add: aligned_unat word_le_nat_alt)
  apply (simp add: word_eq_iff_unsigned [where ?'a = nat])
  apply arith
  done

lemma aligned_apart: "aligned x \<Longrightarrow> aligned y \<Longrightarrow> x \<noteq> y \<Longrightarrow> 16 \<le> y - x"
  by (rule aligned_ge16) (simp_all add: aligned_diff)

lemma aligned_num: "aligned 16" "aligned 32" "aligned 48" "aligned 0"
  by (simp_all add: aligned_def DSIZE_def WSIZE_def)

section \<open>Chains of links\<close>

lemma chain_append: "chain f p (xs @ y # ys) q \<longleftrightarrow> chain f p xs y \<and> chain f y ys q"
  by (induction xs arbitrary: p) auto

lemma chain_snoc: "chain f p (xs @ [y]) q \<longleftrightarrow> chain f p xs y \<and> f y = q"
  by (induction xs arbitrary: p) auto

lemma chain_hd: "chain f p xs q \<Longrightarrow> f p = hd (xs @ [q])"
  by (cases xs) auto

lemma chain_cong: "(\<And>x. x \<in> set (p # xs) \<Longrightarrow> f x = g x) \<Longrightarrow> chain f p xs q \<longleftrightarrow> chain g p xs q"
  by (induction xs arbitrary: p) auto

lemma chain_frame: "a \<notin> set (p # xs) \<Longrightarrow> chain (f(a := v)) p xs q \<longleftrightarrow> chain f p xs q"
  by (rule chain_cong) auto

lemma chain_remove:
  "chain f p (as @ x # bs) q \<Longrightarrow> distinct (p # as @ x # bs)
    \<Longrightarrow> chain (f(last (p # as) := f x)) p (as @ bs) q"
proof (induction as arbitrary: p)
  case Nil
  then have c: "chain f x bs q" and n: "p \<notin> set (x # bs)" by simp_all
  then have "chain (f(p := f x)) x bs q" by (simp add: chain_frame)
  then have "chain (f(p := f x)) p bs q" by (cases bs) simp_all
  then show ?case by (simp add: fun_upd_def)
next
  case (Cons a as)
  from Cons.prems have "chain (f(last (a # as) := f x)) a (as @ bs) q"
    by (intro Cons.IH) simp_all
  moreover have "last (a # as) \<in> set (a # as)" by (rule last_in_set) simp
  with Cons.prems have "last (a # as) \<noteq> p" by auto
  moreover from Cons.prems have "f p = a" by simp
  ultimately have "chain (f(last (a # as) := f x)) p (a # as @ bs) q"
    by (simp del: last.simps)
  then show ?case by (simp add: fun_upd_def)
qed

lemma chain_last_upd:
  "chain f p xs q \<Longrightarrow> distinct (p # xs) \<Longrightarrow> chain (f(last (p # xs) := r)) p xs r"
proof (induction xs arbitrary: p)
  case Nil
  then show ?case by simp
next
  case (Cons a as)
  from Cons.prems have "chain (f(last (a # as) := r)) a as r"
    by (intro Cons.IH) simp_all
  moreover have "last (a # as) \<in> set (a # as)" by (rule last_in_set) simp
  with Cons.prems have "last (a # as) \<noteq> p" by auto
  moreover from Cons.prems have "f p = a" by simp
  ultimately have "chain (f(last (a # as) := r)) p (a # as) r"
    by (simp del: last.simps)
  then show ?case by (simp add: fun_upd_def)
qed

lemma chain_push_front:
  assumes "chain f p xs q" "distinct (p # xs)" "x \<notin> set (p # xs)"
  shows "chain (f(x := f p, p := x)) p (x # xs) q"
proof -
  have "chain (f(x := f p, p := x)) x xs q"
  proof (cases xs)
    case Nil
    with assms show ?thesis by simp
  next
    case (Cons b l)
    with assms have "chain f b l q" "x \<notin> set (b # l)" "p \<notin> set (b # l)" "f p = b" by auto
    then have "chain (f(x := f p, p := x)) b l q" by (simp add: chain_frame)
    with Cons assms \<open>f p = b\<close> show ?thesis by simp
  qed
  then show ?thesis by simp
qed

lemma chain_push_back:
  assumes "chain f p xs q" "distinct (p # xs)" "x \<notin> set (p # xs)"
  shows "chain (f(last (p # xs) := x, x := q)) p (xs @ [x]) q"
proof -
  have "chain (f(last (p # xs) := x)) p xs x"
    using assms by (intro chain_last_upd) auto
  then have "chain (f(last (p # xs) := x, x := q)) p xs x"
    using assms(3) by (simp add: chain_frame)
  then show ?thesis by (simp add: chain_snoc)
qed

section \<open>The free list in memory\<close>

lemma PUT_simps [simp]:
  "mem (PUT s a v) = (mem s)(a := v)"
  "free_listp (PUT s a v) = free_listp s"
  "heap_listp (PUT s a v) = heap_listp s"
  "mem_brk (PUT s a v) = mem_brk s"
  "mem_max_addr (PUT s a v) = mem_max_addr s"
  by (simp_all add: PUT_def)

lemma aligned_add8: "aligned x \<Longrightarrow> aligned y \<Longrightarrow> x + 8 \<noteq> y"
proof
  assume a: "aligned x" "aligned y" "x + 8 = y"
  have "y - x = 8" by (simp add: a(3) [symmetric])
  moreover from a have "x \<noteq> y" by auto
  ultimately show False using aligned_apart [OF a(1) a(2)] by simp
qed

lemma free_list_nodes:
  assumes "free_list s xs"
  shows "fb_next s (free_listp s) \<in> set (free_listp s # xs)"
    and "x \<in> set xs \<Longrightarrow> fb_next s x \<in> set (free_listp s # xs)"
    and "x \<in> set xs \<Longrightarrow> fb_prev s x \<in> set (free_listp s # xs)"
proof -
  let ?F = "free_listp s"
  from assms have n: "chain (fb_next s) ?F xs ?F" and p: "chain (fb_prev s) ?F (rev xs) ?F"
    by (simp_all add: free_list_def)
  from chain_hd [OF n] show "fb_next s ?F \<in> set (?F # xs)" by (cases xs) auto
  {
    assume "x \<in> set xs"
    then obtain as bs where xs: "xs = as @ x # bs" by (auto simp: in_set_conv_decomp)
    with n have "chain (fb_next s) x bs ?F" by (simp add: chain_append)
    from chain_hd [OF this] xs show "fb_next s x \<in> set (?F # xs)" by (cases bs) auto
    from p xs have "chain (fb_prev s) x (rev as) ?F" by (simp add: chain_append)
    from chain_hd [OF this] xs show "fb_prev s x \<in> set (?F # xs)" by (cases "rev as") auto
  }
qed

lemma free_list_frame:
  assumes "free_list s xs" and "free_listp s' = free_listp s"
    and "\<And>x. x \<in> set (free_listp s # xs) \<Longrightarrow> mem s' x = mem s x \<and> mem s' (x + 8) = mem s (x + 8)"
  shows "free_list s' xs"
proof -
  have "chain (fb_next s') (free_listp s) xs (free_listp s) \<longleftrightarrow> chain (fb_next s) (free_listp s) xs (free_listp s)"
    by (rule chain_cong) (simp add: fb_next_def GET_def WSIZE_def assms(3))
  moreover
  have "chain (fb_prev s') (free_listp s) (rev xs) (free_listp s) \<longleftrightarrow> chain (fb_prev s) (free_listp s) (rev xs) (free_listp s)"
    by (rule chain_cong) (use assms(3) in \<open>auto simp add: fb_prev_def GET_def\<close>)
  ultimately show ?thesis using assms(1,2) by (simp add: free_list_def)
qed

lemma free_list_PUT:
  assumes "free_list s xs" and "\<And>x. x \<in> set (free_listp s # xs) \<Longrightarrow> a \<noteq> x \<and> a \<noteq> x + 8"
  shows "free_list (PUT s a v) xs"
  using assms(1) by (rule free_list_frame) (use assms(2) in auto)

lemma remove_free_mem:
  assumes "free_list s xs" and "bp \<in> set xs"
  shows "remove_free s bp = PUT (PUT s (fb_next s bp) (fb_prev s bp)) (fb_prev s bp + 8) (fb_next s bp)"
proof -
  let ?F = "free_listp s"
  from assms have al: "\<And>x. x \<in> set (?F # xs) \<Longrightarrow> aligned x" by (auto simp: free_list_def)
  have N: "fb_next s bp \<in> set (?F # xs)" using free_list_nodes(2) [OF assms] .
  have "bp + 8 \<noteq> fb_next s bp" using assms(2) by (intro aligned_add8 al N) simp
  moreover have "bp \<noteq> fb_next s bp \<or> True" by simp
  ultimately show ?thesis
    by (simp add: remove_free_def Let_def set_prev_def set_next_def fb_prev_def fb_next_def GET_def WSIZE_def)
qed

lemma remove_free_list:
  assumes fl: "free_list s xs" and bp: "bp \<in> set xs"
  shows "free_list (remove_free s bp) (remove1 bp xs)"
proof -
  let ?F = "free_listp s" and ?N = "fb_next s bp" and ?P = "fb_prev s bp"
  let ?s' = "remove_free s bp"
  from fl have n: "chain (fb_next s) ?F xs ?F" and p: "chain (fb_prev s) ?F (rev xs) ?F"
    and d: "distinct (?F # xs)"
    by (simp_all add: free_list_def)
  from fl have al: "\<And>x. x \<in> set (?F # xs) \<Longrightarrow> aligned x"
    by (auto simp: free_list_def)
  from bp obtain as bs where xs: "xs = as @ bp # bs" by (auto simp: in_set_conv_decomp)
  with d have r: "remove1 bp xs = as @ bs" by (simp add: remove1_append)
  have N: "?N \<in> set (?F # xs)" and P: "?P \<in> set (?F # xs)"
    using free_list_nodes(2,3) [OF fl bp] by simp_all
  have Nl: "?N = last (?F # rev bs)"
  proof -
    from n xs have "chain (fb_next s) bp bs ?F" by (simp add: chain_append)
    from chain_hd [OF this] show ?thesis by (cases bs) (simp_all add: last_rev)
  qed
  have Pl: "?P = last (?F # as)"
  proof -
    from p xs have "chain (fb_prev s) bp (rev as) ?F" by (simp add: chain_append)
    from chain_hd [OF this] show ?thesis by (cases as rule: rev_cases) simp_all
  qed
  have m: "mem ?s' = (mem s)(?N := ?P, ?P + 8 := ?N)"
    by (simp add: remove_free_mem [OF fl bp])
  have F: "free_listp ?s' = ?F" by (simp add: remove_free_mem [OF fl bp])
  have nx: "fb_next ?s' x = ((fb_next s)(?P := ?N)) x" if "x \<in> set (?F # xs)" for x
  proof -
    have "x + 8 \<noteq> ?N" using that N by (intro aligned_add8 al)
    then show ?thesis by (simp add: fb_next_def GET_def m WSIZE_def)
  qed
  have pv: "fb_prev ?s' x = ((fb_prev s)(?N := ?P)) x" if "x \<in> set (?F # xs)" for x
  proof -
    have "?P + 8 \<noteq> x" using that P by (intro aligned_add8 al)
    then show ?thesis by (auto simp add: fb_prev_def GET_def m)
  qed
  have "chain (fb_next ?s') ?F (as @ bs) ?F \<longleftrightarrow> chain ((fb_next s)(?P := ?N)) ?F (as @ bs) ?F"
  proof (rule chain_cong)
    fix x assume "x \<in> set (?F # as @ bs)"
    then have "x \<in> set (?F # xs)" using xs by auto
    then show "fb_next ?s' x = ((fb_next s)(?P := ?N)) x" by (rule nx)
  qed
  moreover have "chain ((fb_next s)(last (?F # as) := ?N)) ?F (as @ bs) ?F"
    using n d unfolding xs by (intro chain_remove) simp_all
  ultimately have c1: "chain (fb_next ?s') ?F (as @ bs) ?F" by (simp only: Pl)
  have "chain (fb_prev ?s') ?F (rev bs @ rev as) ?F \<longleftrightarrow> chain ((fb_prev s)(?N := ?P)) ?F (rev bs @ rev as) ?F"
  proof (rule chain_cong)
    fix x assume "x \<in> set (?F # rev bs @ rev as)"
    then have "x \<in> set (?F # xs)" using xs by auto
    then show "fb_prev ?s' x = ((fb_prev s)(?N := ?P)) x" by (rule pv)
  qed
  moreover have "chain ((fb_prev s)(last (?F # rev bs) := ?P)) ?F (rev bs @ rev as) ?F"
    using p d unfolding xs by (intro chain_remove) auto
  ultimately have c2: "chain (fb_prev ?s') ?F (rev (as @ bs)) ?F" by (simp only: Nl rev_append)
  show ?thesis unfolding r free_list_def F using c1 c2 d al xs by auto
qed

lemma add_free_mem:
  assumes "free_list s xs"
  shows "add_free s bp =
    PUT (PUT (PUT (PUT s (fb_next s (free_listp s)) bp) (bp + 8) (fb_next s (free_listp s)))
      bp (free_listp s)) (free_listp s + 8) bp"
proof -
  let ?F = "free_listp s"
  from assms have al: "\<And>x. x \<in> set (?F # xs) \<Longrightarrow> aligned x" by (auto simp: free_list_def)
  have H: "fb_next s ?F \<in> set (?F # xs)" using free_list_nodes(1) [OF assms] .
  have "?F + 8 \<noteq> fb_next s ?F" using H by (intro aligned_add8 al) simp
  then show ?thesis
    by (simp add: add_free_def Let_def set_prev_def set_next_def fb_next_def GET_def WSIZE_def)
qed

lemma add_free_list:
  assumes fl: "free_list s xs" and nin: "bp \<notin> set (free_listp s # xs)" and abp: "aligned bp"
  shows "free_list (add_free s bp) (bp # xs)"
proof -
  let ?F = "free_listp s" and ?H = "fb_next s (free_listp s)"
  let ?s' = "add_free s bp"
  from fl have n: "chain (fb_next s) ?F xs ?F" and p: "chain (fb_prev s) ?F (rev xs) ?F"
    and d: "distinct (?F # xs)"
    by (simp_all add: free_list_def)
  from fl abp have al: "\<And>x. x \<in> set (?F # bp # xs) \<Longrightarrow> aligned x"
    by (auto simp: free_list_def)
  have H: "?H \<in> set (?F # xs)" using free_list_nodes(1) [OF fl] .
  then have H': "?H \<in> set (?F # bp # xs)" by auto
  have Hl: "?H = last (?F # rev xs)"
    using chain_hd [OF n] by (cases xs) (simp_all add: last_rev)
  have m: "mem ?s' = (mem s)(?H := bp, bp + 8 := ?H, bp := ?F, ?F + 8 := bp)"
    by (simp add: add_free_mem [OF fl])
  have F: "free_listp ?s' = ?F" by (simp add: add_free_mem [OF fl])
  have nx: "fb_next ?s' x = ((fb_next s)(bp := fb_next s ?F, ?F := bp)) x"
    if "x \<in> set (?F # bp # xs)" for x
  proof -
    have "aligned x" "aligned ?H" using that H' by (blast intro: al)+
    then have "x + 8 \<noteq> ?H" "x + 8 \<noteq> bp" using abp by (simp_all add: aligned_add8)
    then show ?thesis by (simp add: fb_next_def GET_def m WSIZE_def)
  qed
  have pv: "fb_prev ?s' x = ((fb_prev s)(?H := bp, bp := ?F)) x"
    if "x \<in> set (?F # bp # xs)" for x
  proof -
    have "aligned x" using that by (rule al)
    moreover have "aligned ?F" by (rule al) simp
    ultimately have "?F + 8 \<noteq> x" "bp + 8 \<noteq> x" using abp by (simp_all add: aligned_add8)
    then show ?thesis by (auto simp add: fb_prev_def GET_def m)
  qed
  have "chain (fb_next ?s') ?F (bp # xs) ?F
      \<longleftrightarrow> chain ((fb_next s)(bp := fb_next s ?F, ?F := bp)) ?F (bp # xs) ?F"
  proof (rule chain_cong)
    fix x assume "x \<in> set (?F # bp # xs)"
    then show "fb_next ?s' x = ((fb_next s)(bp := fb_next s ?F, ?F := bp)) x" by (rule nx)
  qed
  moreover have "chain ((fb_next s)(bp := fb_next s ?F, ?F := bp)) ?F (bp # xs) ?F"
    using n d nin by (rule chain_push_front)
  ultimately have c1: "chain (fb_next ?s') ?F (bp # xs) ?F" by simp
  have "chain (fb_prev ?s') ?F (rev xs @ [bp]) ?F
      \<longleftrightarrow> chain ((fb_prev s)(?H := bp, bp := ?F)) ?F (rev xs @ [bp]) ?F"
  proof (rule chain_cong)
    fix x assume "x \<in> set (?F # rev xs @ [bp])"
    then have "x \<in> set (?F # bp # xs)" by auto
    then show "fb_prev ?s' x = ((fb_prev s)(?H := bp, bp := ?F)) x" by (rule pv)
  qed
  moreover have "chain ((fb_prev s)(last (?F # rev xs) := bp, bp := ?F)) ?F (rev xs @ [bp]) ?F"
    using p d nin by (intro chain_push_back) simp_all
  ultimately have c2: "chain (fb_prev ?s') ?F (rev (bp # xs)) ?F" by (simp only: Hl rev.simps)
  show ?thesis unfolding free_list_def F using c1 c2 d al nin by auto
qed

section \<open>Placement\<close>

lemma block_addr_clear:
  fixes A :: word64
  assumes "y = bp \<or> (c \<le> y - bp \<and> 32 \<le> bp - y)" "32 \<le> c" "A - (bp - 8) \<le> c - 8"
    "A \<noteq> bp" "A \<noteq> bp + 8"
  shows "A \<noteq> y \<and> A \<noteq> y + 8"
  using assms by uint_arith

lemma disjoint_blocksD:
  assumes "disjoint_blocks s X" "bp \<in> X" "y \<in> X"
  shows "y = bp \<or> (GET_SIZE s (HDRP bp) \<le> y - bp \<and> 32 \<le> bp - y)"
proof (cases "y = bp")
  case False
  with assms have "GET_SIZE s (HDRP bp) \<le> y - bp" "GET_SIZE s (HDRP y) \<le> bp - y"
    "32 \<le> GET_SIZE s (HDRP y)"
    by (auto simp: disjoint_blocks_def DSIZE_def WSIZE_def)
  then show ?thesis by auto
qed simp

lemma GET_SIZE_PUT_PACK:
  "aligned a \<Longrightarrow> GET_SIZE (PUT s p (PACK a 1)) p = a"
  "aligned a \<Longrightarrow> GET_SIZE (PUT s p (PACK a 0)) p = a"
  by (simp_all add: GET_SIZE_def GET_def PACK_def DSIZE_def WSIZE_def size_PACK_1 size_PACK_0)

lemma place_split_sep:
  assumes fl: "free_list s xs" and bp: "bp \<in> set xs"
    and sep0: "\<forall>y \<in> set (free_listp s # xs). y = bp \<or> (GET_SIZE s (HDRP bp) \<le> y - bp \<and> 32 \<le> bp - y)"
    and al: "aligned asize" and lo: "2 * DSIZE \<le> asize" and le: "asize \<le> GET_SIZE s (HDRP bp)"
    and sp: "3 * DSIZE \<le> GET_SIZE s (HDRP bp) - asize"
  shows "GET (place s bp asize) (HDRP bp) = PACK asize 1 \<and>
         GET (place s bp asize) (FTRP (place s bp asize) bp) = PACK asize 1 \<and>
         NEXT_BLKP (place s bp asize) bp = bp + asize \<and>
         GET (place s bp asize) (HDRP (bp + asize)) = PACK (GET_SIZE s (HDRP bp) - asize) 0 \<and>
         GET (place s bp asize) (FTRP (place s bp asize) (bp + asize))
           = PACK (GET_SIZE s (HDRP bp) - asize) 0 \<and>
         free_list (place s bp asize) ((bp + asize) # remove1 bp xs)"
proof -
  define c where "c = GET_SIZE s (HDRP bp)"
  define d where "d = c - asize"
  define F where "F = free_listp s"
  define h where "h = bp - 8"
  define f1 where "f1 = bp + asize - 16"
  define rh where "rh = bp + asize - 8"
  define f2 where "f2 = bp + c - 16"
  define r where "r = bp + asize"
  define r8 where "r8 = r + 8"
  let ?X = "set (F # xs)"
  have sz: "32 \<le> asize" "asize \<le> c" "48 \<le> c - asize"
    using lo le sp by (simp_all add: c_def DSIZE_def WSIZE_def)
  then have c32: "32 \<le> c" by uint_arith
  have alX: "aligned y" if "y \<in> ?X" for y using fl that by (auto simp: free_list_def F_def)
  have abp: "aligned bp" using bp by (auto intro: alX)
  have ac: "aligned c" by (simp add: c_def aligned_GET_SIZE)
  have ad: "aligned d" unfolding d_def using ac al by (rule aligned_diff)
  have ar: "aligned r" unfolding r_def using abp al by (rule aligned_add)
  have bpX: "bp \<in> ?X" using bp by simp
  have sep: "y = bp \<or> (c \<le> y - bp \<and> 32 \<le> bp - y)" if "y \<in> ?X" for y
    using sep0 that by (auto simp: c_def F_def)
  have inb: "h - (bp - 8) \<le> c - 8" "f1 - (bp - 8) \<le> c - 8" "rh - (bp - 8) \<le> c - 8"
     "f2 - (bp - 8) \<le> c - 8" "r - (bp - 8) \<le> c - 8"
     "h \<noteq> bp" "f1 \<noteq> bp" "rh \<noteq> bp" "f2 \<noteq> bp" "r \<noteq> bp"
     "h \<noteq> bp + 8" "f1 \<noteq> bp + 8" "rh \<noteq> bp + 8" "f2 \<noteq> bp + 8" "r \<noteq> bp + 8"
    unfolding h_def f1_def rh_def f2_def r_def using sz by uint_arith+
  have clr: "h \<noteq> y \<and> h \<noteq> y + 8" "f1 \<noteq> y \<and> f1 \<noteq> y + 8" "rh \<noteq> y \<and> rh \<noteq> y + 8"
      "f2 \<noteq> y \<and> f2 \<noteq> y + 8" "r \<noteq> y \<and> r \<noteq> y + 8" if "y \<in> ?X" for y
    using block_addr_clear [OF sep [OF that] c32 inb(1) inb(6) inb(11)]
      block_addr_clear [OF sep [OF that] c32 inb(2) inb(7) inb(12)]
      block_addr_clear [OF sep [OF that] c32 inb(3) inb(8) inb(13)]
      block_addr_clear [OF sep [OF that] c32 inb(4) inb(9) inb(14)]
      block_addr_clear [OF sep [OF that] c32 inb(5) inb(10) inb(15)] by blast+
  have dist: "h \<noteq> f1" "h \<noteq> rh" "h \<noteq> f2" "h \<noteq> r" "h \<noteq> r8" "f1 \<noteq> rh" "f1 \<noteq> f2" "f1 \<noteq> r"
     "f1 \<noteq> r8" "rh \<noteq> f2" "rh \<noteq> r" "rh \<noteq> r8" "f2 \<noteq> r" "f2 \<noteq> r8"
    unfolding h_def f1_def rh_def f2_def r_def r8_def using sz by uint_arith+
  let ?xs' = "remove1 bp xs"
  have sub: "set (F # ?xs') \<subseteq> ?X" using set_remove1_subset [of bp xs] by auto
  define pa where "pa = PACK asize 1"
  define pd where "pd = PACK d 0"
  define s1 where "s1 = PUT s h pa"
  define s2 where "s2 = PUT s1 f1 pa"
  have F1: "free_listp s1 = F" "free_listp s2 = F" by (simp_all add: s1_def s2_def F_def)
  have fl1: "free_list s1 xs" unfolding s1_def
    using fl by (rule free_list_PUT) (use clr(1) in \<open>simp add: F_def\<close>)
  have fl2: "free_list s2 xs" unfolding s2_def
    using fl1 by (rule free_list_PUT) (use clr(2) in \<open>simp add: F1\<close>)
  define N where "N = fb_next s2 bp"
  define P where "P = fb_prev s2 bp"
  have NP: "N \<in> ?X" "P \<in> ?X"
    using free_list_nodes(2,3) [OF fl2 bp] by (simp_all add: N_def P_def F1)
  define s3 where "s3 = remove_free s2 bp"
  have s3: "s3 = PUT (PUT s2 N P) (P + 8) N"
    unfolding s3_def N_def P_def using fl2 bp by (rule remove_free_mem)
  have fl3: "free_list s3 ?xs'" unfolding s3_def using fl2 bp by (rule remove_free_list)
  have F3: "free_listp s3 = F" by (simp add: s3 F1)
  define s4 where "s4 = PUT s3 rh pd"
  define s5 where "s5 = PUT s4 f2 pd"
  have F5: "free_listp s4 = F" "free_listp s5 = F" by (simp_all add: s4_def s5_def F3)
  have fl4: "free_list s4 ?xs'" unfolding s4_def
    using fl3 by (rule free_list_PUT) (use clr(3) sub in \<open>auto simp add: F3\<close>)
  have fl5: "free_list s5 ?xs'" unfolding s5_def
    using fl4 by (rule free_list_PUT) (use clr(4) sub in \<open>auto simp add: F5\<close>)
  define H where "H = fb_next s5 F"
  have HX: "H \<in> ?X" using free_list_nodes(1) [OF fl5] sub by (auto simp: H_def F5)
  define s6 where "s6 = add_free s5 r"
  have s6: "s6 = PUT (PUT (PUT (PUT s5 H r) (r + 8) H) r F) (F + 8) r"
    unfolding s6_def H_def using add_free_mem [OF fl5, of r] by (simp add: F5)
  have rn: "r \<notin> set (free_listp s5 # ?xs')" using clr(5) sub by (auto simp: F5)
  have fl6: "free_list s6 (r # ?xs')" unfolding s6_def using fl5 rn ar by (rule add_free_list)
  have FX: "F \<in> ?X" by simp
  note nodes = clr [OF NP(1)] clr [OF NP(2)] clr [OF HX] clr [OF FX]
  have m6: "mem s6 = (mem s)(h := pa, f1 := pa, N := P, P + 8 := N, rh := pd, f2 := pd,
       H := r, r + 8 := H, r := F, F + 8 := r)"
    by (simp add: s6 s5_def s4_def s3 s2_def s1_def)
  have g: "mem s6 h = pa" "mem s6 f1 = pa" "mem s6 rh = pd" "mem s6 f2 = pd"
    using nodes dist [unfolded r8_def] by (simp_all add: m6)
  have E1: "HDRP bp = h" by (simp add: HDRP_def WSIZE_def h_def)
  have E2: "FTRP s1 bp = f1"
    by (simp add: FTRP_def E1 s1_def pa_def GET_SIZE_PUT_PACK(1) [OF al] f1_def DSIZE_def WSIZE_def)
  have "mem s3 h = pa" using nodes dist by (simp add: s3 s2_def s1_def)
  then have E3: "NEXT_BLKP s3 bp = r"
    using al by (simp add: NEXT_BLKP_def GET_SIZE_def GET_def WSIZE_def DSIZE_def h_def [symmetric] pa_def
        PACK_def size_PACK_1 r_def)
  have E4: "HDRP r = rh" by (simp add: HDRP_def WSIZE_def rh_def r_def)
  have "GET_SIZE s4 rh = d" by (simp add: s4_def pd_def GET_SIZE_PUT_PACK(2) [OF ad])
  then have "FTRP s4 r = r + d - 16" by (simp add: FTRP_def E4 DSIZE_def WSIZE_def)
  then have E5: "FTRP s4 r = f2" by (simp add: f2_def d_def r_def)
  have ch: "GET_SIZE s h = c" by (simp add: c_def E1)
  have sp': "3 * DSIZE \<le> d" using sp by (simp add: c_def d_def)
  have pl: "place s bp asize = s6"
    unfolding place_def
    by (simp only: Let_def E1 ch sp' if_True pa_def [symmetric] s1_def [symmetric] E2
        s2_def [symmetric] s3_def [symmetric] E3 E4 d_def [symmetric] pd_def [symmetric]
        s4_def [symmetric] E5 s5_def [symmetric] s6_def [symmetric])
  have sz6: "GET_SIZE s6 h = asize" "GET_SIZE s6 rh = d"
    using al ad by (simp_all add: GET_SIZE_def GET_def g pa_def pd_def PACK_def DSIZE_def WSIZE_def
        size_PACK_1 size_PACK_0)
  have "GET s6 (HDRP bp) = pa" by (simp add: E1 GET_def g)
  moreover have "FTRP s6 bp = f1" by (simp add: FTRP_def E1 sz6 f1_def DSIZE_def WSIZE_def)
  moreover have "NEXT_BLKP s6 bp = r"
    by (simp add: NEXT_BLKP_def WSIZE_def h_def [symmetric] sz6 r_def)
  moreover have "GET s6 (HDRP r) = pd" by (simp add: E4 GET_def g)
  moreover have "FTRP s6 r = r + d - 16" by (simp add: FTRP_def E4 sz6 DSIZE_def WSIZE_def)
  then have "FTRP s6 r = f2" by (simp add: f2_def d_def r_def)
  ultimately show ?thesis
    using fl6 g by (simp add: pl GET_def r_def [symmetric] c_def [symmetric] d_def [symmetric]
        pa_def pd_def)
qed

lemma place_whole_sep:
  assumes fl: "free_list s xs" and bp: "bp \<in> set xs"
    and sep0: "\<forall>y \<in> set (free_listp s # xs). y = bp \<or> (GET_SIZE s (HDRP bp) \<le> y - bp \<and> 32 \<le> bp - y)"
    and lo: "2 * DSIZE \<le> GET_SIZE s (HDRP bp)"
    and sp: "\<not> 3 * DSIZE \<le> GET_SIZE s (HDRP bp) - asize"
  shows "GET (place s bp asize) (HDRP bp) = PACK (GET_SIZE s (HDRP bp)) 1 \<and>
         GET (place s bp asize) (FTRP (place s bp asize) bp) = PACK (GET_SIZE s (HDRP bp)) 1 \<and>
         free_list (place s bp asize) (remove1 bp xs) \<and>
         (\<forall>a. a \<noteq> HDRP bp \<and> a \<noteq> FTRP s bp \<and> a \<noteq> fb_next s bp \<and> a \<noteq> fb_prev s bp + WSIZE
            \<longrightarrow> mem (place s bp asize) a = mem s a)"
proof -
  define c where "c = GET_SIZE s (HDRP bp)"
  define F where "F = free_listp s"
  define h where "h = bp - 8"
  define f2 where "f2 = bp + c - 16"
  let ?X = "set (F # xs)"
  have bpX: "bp \<in> ?X" using bp by simp
  have c32: "32 \<le> c" using lo by (simp add: c_def DSIZE_def WSIZE_def)
  have ac: "aligned c" by (simp add: c_def aligned_GET_SIZE)
  have sep: "y = bp \<or> (c \<le> y - bp \<and> 32 \<le> bp - y)" if "y \<in> ?X" for y
    using sep0 that by (auto simp: c_def F_def)
  have inb: "h - (bp - 8) \<le> c - 8" "f2 - (bp - 8) \<le> c - 8"
     "h \<noteq> bp" "f2 \<noteq> bp" "h \<noteq> bp + 8" "f2 \<noteq> bp + 8"
    unfolding h_def f2_def using c32 by uint_arith+
  have clr: "h \<noteq> y \<and> h \<noteq> y + 8" "f2 \<noteq> y \<and> f2 \<noteq> y + 8" if "y \<in> ?X" for y
    using block_addr_clear [OF sep [OF that] c32 inb(1) inb(3) inb(5)]
      block_addr_clear [OF sep [OF that] c32 inb(2) inb(4) inb(6)] by blast+
  have dist: "h \<noteq> f2" unfolding h_def f2_def using c32 by uint_arith
  define pc where "pc = PACK c 1"
  define s1 where "s1 = PUT s h pc"
  define s2 where "s2 = PUT s1 f2 pc"
  have F1: "free_listp s1 = F" "free_listp s2 = F" by (simp_all add: s1_def s2_def F_def)
  have fl1: "free_list s1 xs" unfolding s1_def
    using fl by (rule free_list_PUT) (use clr(1) in \<open>simp add: F_def\<close>)
  have fl2: "free_list s2 xs" unfolding s2_def
    using fl1 by (rule free_list_PUT) (use clr(2) in \<open>simp add: F1\<close>)
  define N where "N = fb_next s2 bp"
  define P where "P = fb_prev s2 bp"
  have NP: "N \<in> ?X" "P \<in> ?X"
    using free_list_nodes(2,3) [OF fl2 bp] by (simp_all add: N_def P_def F1)
  have N: "N = fb_next s bp" using inb
    by (simp add: N_def fb_next_def GET_def s2_def s1_def WSIZE_def)
  have P: "P = fb_prev s bp" using inb
    by (simp add: P_def fb_prev_def GET_def s2_def s1_def)
  define s3 where "s3 = remove_free s2 bp"
  have s3: "s3 = PUT (PUT s2 N P) (P + 8) N"
    unfolding s3_def N_def P_def using fl2 bp by (rule remove_free_mem)
  have fl3: "free_list s3 (remove1 bp xs)" unfolding s3_def using fl2 bp by (rule remove_free_list)
  note nodes = clr [OF NP(1)] clr [OF NP(2)]
  have m3: "mem s3 = (mem s)(h := pc, f2 := pc, N := P, P + 8 := N)"
    by (simp add: s3 s2_def s1_def)
  have g: "mem s3 h = pc" "mem s3 f2 = pc"
    using nodes dist by (simp_all add: m3)
  have E1: "HDRP bp = h" by (simp add: HDRP_def WSIZE_def h_def)
  have E2: "FTRP s1 bp = f2"
    by (simp add: FTRP_def E1 s1_def pc_def GET_SIZE_PUT_PACK(1) [OF ac] f2_def DSIZE_def WSIZE_def)
  have E0: "FTRP s bp = f2" by (simp add: FTRP_def c_def [symmetric] f2_def DSIZE_def WSIZE_def)
  have ch: "GET_SIZE s h = c" by (simp add: c_def E1)
  have sp': "\<not> 3 * DSIZE \<le> c - asize" using sp by (simp add: c_def)
  have pl: "place s bp asize = s3"
    unfolding place_def
    by (simp only: Let_def E1 ch sp' if_False pc_def [symmetric] s1_def [symmetric] E2
        s2_def [symmetric] s3_def [symmetric])
  have sz3: "GET_SIZE s3 h = c"
    using ac by (simp add: GET_SIZE_def GET_def g pc_def PACK_def DSIZE_def WSIZE_def size_PACK_1)
  have "GET s3 (HDRP bp) = pc" by (simp add: E1 GET_def g)
  moreover have "FTRP s3 bp = f2" by (simp add: FTRP_def E1 sz3 f2_def DSIZE_def WSIZE_def)
  moreover have "mem s3 a = mem s a"
    if "a \<noteq> HDRP bp \<and> a \<noteq> FTRP s bp \<and> a \<noteq> fb_next s bp \<and> a \<noteq> fb_prev s bp + WSIZE" for a
    using that by (simp add: m3 E1 E0 N P WSIZE_def)
  ultimately show ?thesis
    using fl3 g by (simp add: pl GET_def c_def [symmetric] pc_def)
qed

lemma place_split:
  assumes fl: "free_list s xs" and bp: "bp \<in> set xs"
    and dj: "disjoint_blocks s (set (free_listp s # xs))"
    and al: "aligned asize" and lo: "2 * DSIZE \<le> asize" and le: "asize \<le> GET_SIZE s (HDRP bp)"
    and sp: "3 * DSIZE \<le> GET_SIZE s (HDRP bp) - asize"
  shows "GET (place s bp asize) (HDRP bp) = PACK asize 1 \<and>
         GET (place s bp asize) (FTRP (place s bp asize) bp) = PACK asize 1 \<and>
         NEXT_BLKP (place s bp asize) bp = bp + asize \<and>
         GET (place s bp asize) (HDRP (bp + asize)) = PACK (GET_SIZE s (HDRP bp) - asize) 0 \<and>
         GET (place s bp asize) (FTRP (place s bp asize) (bp + asize))
           = PACK (GET_SIZE s (HDRP bp) - asize) 0 \<and>
         free_list (place s bp asize) ((bp + asize) # remove1 bp xs)"
proof -
  have "\<forall>y \<in> set (free_listp s # xs). y = bp \<or> (GET_SIZE s (HDRP bp) \<le> y - bp \<and> 32 \<le> bp - y)"
    using disjoint_blocksD [OF dj, of bp] bp by simp
  then show ?thesis using fl bp al lo le sp by (intro place_split_sep) auto
qed

lemma place_whole:
  assumes fl: "free_list s xs" and bp: "bp \<in> set xs"
    and dj: "disjoint_blocks s (set (free_listp s # xs))"
    and sp: "\<not> 3 * DSIZE \<le> GET_SIZE s (HDRP bp) - asize"
  shows "GET (place s bp asize) (HDRP bp) = PACK (GET_SIZE s (HDRP bp)) 1 \<and>
         GET (place s bp asize) (FTRP (place s bp asize) bp) = PACK (GET_SIZE s (HDRP bp)) 1 \<and>
         free_list (place s bp asize) (remove1 bp xs) \<and>
         (\<forall>a. a \<noteq> HDRP bp \<and> a \<noteq> FTRP s bp \<and> a \<noteq> fb_next s bp \<and> a \<noteq> fb_prev s bp + WSIZE
            \<longrightarrow> mem (place s bp asize) a = mem s a)"
proof -
  have "\<forall>y \<in> set (free_listp s # xs). y = bp \<or> (GET_SIZE s (HDRP bp) \<le> y - bp \<and> 32 \<le> bp - y)"
    using disjoint_blocksD [OF dj, of bp] bp by simp
  moreover have "2 * DSIZE \<le> GET_SIZE s (HDRP bp)"
    using dj bp by (auto simp: disjoint_blocks_def)
  ultimately show ?thesis using fl bp sp by (intro place_whole_sep) auto
qed

section \<open>First fit\<close>

lemma find_fit_loop_chain:
  assumes "chain (fb_next s) p xs (free_listp s)"
    and "free_listp s \<notin> set xs"
    and "\<forall>x \<in> set xs. GET_ALLOC s (HDRP x) = 0"
    and "GET_ALLOC s (HDRP (free_listp s)) \<noteq> 0"
  shows "find_fit_loop s asize (fb_next s p) =
     Some (case List.find (\<lambda>x. asize \<le> GET_SIZE s (HDRP x)) xs of Some x \<Rightarrow> x | None \<Rightarrow> NULL)"
  using assms
proof (induction xs arbitrary: p)
  case Nil
  then show ?case by (simp add: find_fit_loop.simps)
next
  case (Cons x xs)
  from Cons.prems have x: "fb_next s p = x" and c: "chain (fb_next s) x xs (free_listp s)"
    and f: "x \<noteq> free_listp s" and a: "GET_ALLOC s (HDRP x) = 0" by auto
  show ?case
  proof (cases "asize \<le> GET_SIZE s (HDRP x)")
    case True
    then show ?thesis using a by (simp add: x find_fit_loop.simps [of s asize x])
  next
    case False
    have "find_fit_loop s asize (fb_next s x) =
      Some (case List.find (\<lambda>x. asize \<le> GET_SIZE s (HDRP x)) xs of Some x \<Rightarrow> x | None \<Rightarrow> NULL)"
      using c Cons.prems by (intro Cons.IH) auto
    then show ?thesis using False a f by (simp add: x find_fit_loop.simps [of s asize x])
  qed
qed

text \<open>Claim C6. On a heap whose free list holds the nodes \<open>xs\<close> in list order, all
  with a clear allocated bit, and whose sentinel is marked allocated, \<^verbatim>\<open>find_fit\<close> returns
  (it does not loop) the first node of \<open>xs\<close> whose size is at least \<open>asize\<close>, and
  \<^verbatim>\<open>NULL\<close> when \<open>xs\<close> has no such node. The result is therefore never the sentinel,
  never an allocated block, and never a later fit when an earlier one exists.\<close>

theorem find_fit_first_fit:
  assumes "free_list s xs"
    and "\<forall>x \<in> set xs. GET_ALLOC s (HDRP x) = 0"
    and "GET_ALLOC s (HDRP (free_listp s)) \<noteq> 0"
  shows "find_fit s asize =
     Some (case List.find (\<lambda>x. asize \<le> GET_SIZE s (HDRP x)) xs of Some x \<Rightarrow> x | None \<Rightarrow> NULL)"
  unfolding find_fit_def
  using assms by (intro find_fit_loop_chain) (simp_all add: free_list_def)

lemma free_list_heap_init: "free_list heap_init [0x10040]"
  by (simp add: free_list_def heap_init_eq fb_next_def fb_prev_def GET_def WSIZE_def aligned_def DSIZE_def)

lemma disjoint_heap_init: "disjoint_blocks heap_init (set (free_listp heap_init # [0x10040]))"
  by (simp add: disjoint_blocks_def heap_init_eq GET_SIZE_def GET_def HDRP_def WSIZE_def DSIZE_def)

theorem find_fit_first_fit_witness:
  "free_list heap_init [0x10040] \<and> GET_ALLOC heap_init (HDRP 0x10040) = 0 \<and>
   GET_ALLOC heap_init (HDRP (free_listp heap_init)) \<noteq> 0 \<and>
   find_fit heap_init 32 = Some 0x10040 \<and> find_fit heap_init 4104 = Some NULL \<and>
   free_list heap_two_freed [0x10040, 0x100E0] \<and>
   GET_ALLOC heap_two_freed (HDRP 0x10040) = 0 \<and> GET_ALLOC heap_two_freed (HDRP 0x100E0) = 0 \<and>
   GET_ALLOC heap_two_freed (HDRP (free_listp heap_two_freed)) \<noteq> 0 \<and>
   GET_SIZE heap_two_freed (HDRP 0x10040) = 80 \<and> GET_SIZE heap_two_freed (HDRP 0x100E0) = 3936 \<and>
   find_fit heap_two_freed 80 = Some 0x10040 \<and> find_fit heap_two_freed 96 = Some 0x100E0 \<and>
   find_fit heap_two_freed 4000 = Some NULL"
proof -
  have a: "\<forall>x \<in> set [0x10040]. GET_ALLOC heap_init (HDRP x) = 0"
    by (simp add: heap_init_eq GET_ALLOC_def GET_def HDRP_def WSIZE_def)
  have b: "GET_ALLOC heap_init (HDRP (free_listp heap_init)) \<noteq> 0"
    by (simp add: heap_init_eq GET_ALLOC_def GET_def HDRP_def WSIZE_def)
  have c: "GET_SIZE heap_init (HDRP 0x10040) = 4096"
    by (simp add: heap_init_eq GET_SIZE_def GET_def HDRP_def WSIZE_def DSIZE_def)
  have f2: "free_list heap_two_freed [0x10040, 0x100E0]"
    by (simp add: free_list_def heap_two_freed_eq fb_next_def fb_prev_def GET_def WSIZE_def
        aligned_def DSIZE_def)
  have a2: "\<forall>x \<in> set [0x10040, 0x100E0]. GET_ALLOC heap_two_freed (HDRP x) = 0"
    by (simp add: heap_two_freed_eq GET_ALLOC_def GET_def HDRP_def WSIZE_def)
  have b2: "GET_ALLOC heap_two_freed (HDRP (free_listp heap_two_freed)) \<noteq> 0"
    by (simp add: heap_two_freed_eq GET_ALLOC_def GET_def HDRP_def WSIZE_def)
  have c2: "GET_SIZE heap_two_freed (HDRP 0x10040) = 80"
    "GET_SIZE heap_two_freed (HDRP 0x100E0) = 3936"
    by (simp_all add: heap_two_freed_eq GET_SIZE_def GET_def HDRP_def WSIZE_def DSIZE_def)
  show ?thesis
    using find_fit_first_fit [OF free_list_heap_init a b, of 32]
      find_fit_first_fit [OF free_list_heap_init a b, of 4104] a b c free_list_heap_init
      find_fit_first_fit [OF f2 a2 b2, of 80] find_fit_first_fit [OF f2 a2 b2, of 96]
      find_fit_first_fit [OF f2 a2 b2, of 4000] f2 a2 b2 c2
    by simp
qed

section \<open>The split policy\<close>

text \<open>Claim C7. Let \<open>bp\<close> be a node of the free list, of size \<open>csize\<close>, on a heap where
  the blocks of the list nodes and of the sentinel do not overlap, and let \<open>asize\<close> be an
  adjusted request (a multiple of the double word, at least the minimum block size) with
  \<open>asize \<le> csize\<close>. If \<open>csize - asize \<ge> 3 DSIZE\<close>, then after \<^verbatim>\<open>place\<close> the header
  and footer of \<open>bp\<close> are \<open>(asize, 1)\<close>, the next block starts at \<open>bp + asize\<close> with
  header and footer \<open>(csize - asize, 0)\<close>, and the free list is the old one with \<open>bp\<close>
  removed and the remainder added at its head. Otherwise header and footer of \<open>bp\<close> are
  \<open>(csize, 1)\<close>, the free list is the old one with \<open>bp\<close> removed, and apart from that
  header and footer and the two link words of the neighbours of \<open>bp\<close> in the list no
  word of memory has changed: no block was created.\<close>

theorem place_split_policy:
  assumes "free_list s xs" and "bp \<in> set xs"
    and "disjoint_blocks s (set (free_listp s # xs))"
    and "aligned asize" and "2 * DSIZE \<le> asize" and "asize \<le> GET_SIZE s (HDRP bp)"
  shows "let csize = GET_SIZE s (HDRP bp); s' = place s bp asize
         in if 3 * DSIZE \<le> csize - asize then
              GET s' (HDRP bp) = PACK asize 1 \<and> GET s' (FTRP s' bp) = PACK asize 1 \<and>
              NEXT_BLKP s' bp = bp + asize \<and>
              GET s' (HDRP (bp + asize)) = PACK (csize - asize) 0 \<and>
              GET s' (FTRP s' (bp + asize)) = PACK (csize - asize) 0 \<and>
              free_list s' ((bp + asize) # remove1 bp xs)
            else
              GET s' (HDRP bp) = PACK csize 1 \<and> GET s' (FTRP s' bp) = PACK csize 1 \<and>
              free_list s' (remove1 bp xs) \<and>
              (\<forall>a. a \<noteq> HDRP bp \<and> a \<noteq> FTRP s bp \<and> a \<noteq> fb_next s bp \<and>
                   a \<noteq> fb_prev s bp + WSIZE \<longrightarrow> mem s' a = mem s a)"
proof (cases "3 * DSIZE \<le> GET_SIZE s (HDRP bp) - asize")
  case True
  with place_split [OF assms True] show ?thesis by (simp add: Let_def)
next
  case False
  with place_whole [OF assms(1-3) False] show ?thesis by (simp add: Let_def)
qed

theorem place_split_policy_witness:
  "free_list heap_init [0x10040] \<and> 0x10040 \<in> set [0x10040 :: word64] \<and>
   disjoint_blocks heap_init (set (free_listp heap_init # [0x10040])) \<and>
   aligned 32 \<and> 2 * DSIZE \<le> 32 \<and> 32 \<le> GET_SIZE heap_init (HDRP 0x10040) \<and>
   aligned 4064 \<and> 2 * DSIZE \<le> 4064 \<and> 4064 \<le> GET_SIZE heap_init (HDRP 0x10040) \<and>
   GET (place heap_init 0x10040 32) (HDRP 0x10040) = PACK 32 1 \<and>
   GET (place heap_init 0x10040 32) (HDRP 0x10060) = PACK 4064 0 \<and>
   free_list (place heap_init 0x10040 32) [0x10060] \<and>
   GET (place heap_init 0x10040 4064) (HDRP 0x10040) = PACK 4096 1 \<and>
   free_list (place heap_init 0x10040 4064) []"
proof -
  have m: "0x10040 \<in> set [0x10040 :: word64]" by simp
  have c: "GET_SIZE heap_init (HDRP 0x10040) = 4096"
    by (simp add: heap_init_eq GET_SIZE_def GET_def HDRP_def WSIZE_def DSIZE_def)
  have a1: "aligned 32" "2 * DSIZE \<le> 32" "32 \<le> GET_SIZE heap_init (HDRP 0x10040)"
    by (simp_all add: c aligned_def DSIZE_def WSIZE_def)
  have a2: "aligned 4064" "2 * DSIZE \<le> 4064" "4064 \<le> GET_SIZE heap_init (HDRP 0x10040)"
    by (simp_all add: c aligned_def DSIZE_def WSIZE_def)
  show ?thesis
    using place_split_policy [OF free_list_heap_init m disjoint_heap_init a1]
      place_split_policy [OF free_list_heap_init m disjoint_heap_init a2]
      free_list_heap_init disjoint_heap_init a1 a2
    by (simp add: c Let_def DSIZE_def WSIZE_def)
qed

section \<open>The copy path of reallocate\<close>

lemma copy_path_placed_1024:
  "Option.bind (mm_malloc heap_two 1048) (\<lambda>(newptr, s1). Some (newptr, place s1 newptr 1048)) =
     Some (65760, \<lparr>mem = mem_placed_1024, mem_brk = 0x11040, mem_max_addr = 0x20000,
                    heap_listp = 0x10010, free_listp = 0x10020\<rparr>)"
  apply (simp add: heap_two_eq find_fit_loop_num mm_defs Let_def mem_placed_1024_def
      cong: let_weak_cong prod.case_cong_weak bind_weak_cong)
  apply (auto simp: fun_eq_iff)
  done

lemma copy_path_placed_420:
  "Option.bind (mm_malloc heap_two 448) (\<lambda>(newptr, s1). Some (newptr, place s1 newptr 448)) =
     Some (65760, \<lparr>mem = mem_placed_420, mem_brk = 0x11040, mem_max_addr = 0x20000,
                    heap_listp = 0x10010, free_listp = 0x10020\<rparr>)"
  apply (simp add: heap_two_eq find_fit_loop_num mm_defs Let_def mem_placed_420_def
      cong: let_weak_cong prod.case_cong_weak bind_weak_cong)
  apply (auto simp: fun_eq_iff)
  done


lemma realloc_copy_path:
  assumes pl: "Option.bind (mm_malloc s asize) (\<lambda>(newptr, s1). Some (newptr, place s1 newptr asize))
                 = Some (np, s2)"
    and sz: "sz \<noteq> 0" "realloc_asize sz = asize" and p: "ptr \<noteq> NULL" "np \<noteq> NULL"
    and grow: "\<not> asize \<le> GET_SIZE s (HDRP ptr)"
    and nx: "GET_ALLOC s (HDRP (NEXT_BLKP s ptr)) \<noteq> 0"
  shows "mm_realloc s ptr sz = Some (np, mm_free (memcpy s2 np ptr asize) ptr)"
proof -
  from pl obtain s1 where a: "mm_malloc s asize = Some (np, s1)" and b: "place s1 np asize = s2"
    by (auto simp: bind_eq_Some_conv)
  show ?thesis using sz p grow nx by (simp add: mm_realloc_def Let_def a b)
qed

lemma memcpy_rec:
  "memcpy \<lparr>mem = m, mem_brk = b, mem_max_addr = x, heap_listp = h, free_listp = f\<rparr> d r n =
     \<lparr>mem = (\<lambda>a. if a - d < n \<and> (a - d) mod 8 = 0 then m (r + (a - d)) else m a),
      mem_brk = b, mem_max_addr = x, heap_listp = h, free_listp = f\<rparr>"
  by (simp add: memcpy_def WSIZE_def cong: if_cong)

lemmas copy_defs = WSIZE_def DSIZE_def CHUNKSIZE_def NULL_def MAX_c_def PACK_def GET_def PUT_def
  GET_SIZE_def GET_ALLOC_def HDRP_def FTRP_def NEXT_BLKP_def PREV_BLKP_def ROUND_def
  fb_prev_def fb_next_def set_prev_def set_next_def mem_sbrk_def add_free_def remove_free_def
  coalesce_def extend_heap_def place_def find_fit_def mm_init_def malloc_asize_def mm_malloc_def
  mm_free_def memcpy_rec realloc_asize_def mm_realloc_def

lemma realloc_1024_eq:
  "mm_realloc heap_two 65600 1024 =
     Some (65760,
       \<lparr>mem = (\<lambda>a. if a - 65760 < 1048 \<and> (a - 65760) mod 8 = 0
                    then mem_placed_1024 (65600 + (a - 65760)) else mem_placed_1024 a)
               (65592 := 80, 65664 := 80, 65568 := 65600, 65608 := 65568, 65600 := 65568,
                65576 := 65600),
        mem_brk = 0x11040, mem_max_addr = 0x20000, heap_listp = 0x10010, free_listp = 0x10020\<rparr>)"
proof -
  have a: "realloc_asize 1024 = 1048" by (simp add: mm_defs)
  have b: "\<not> 1048 \<le> GET_SIZE heap_two (HDRP 65600)"
    "GET_ALLOC heap_two (HDRP (NEXT_BLKP heap_two 65600)) \<noteq> 0"
    by (simp_all add: heap_two_eq mm_defs)
  have "mm_realloc heap_two 65600 1024 = Some (65760,
      mm_free (memcpy \<lparr>mem = mem_placed_1024, mem_brk = 0x11040, mem_max_addr = 0x20000,
                    heap_listp = 0x10010, free_listp = 0x10020\<rparr> 65760 65600 1048) 65600)"
    using copy_path_placed_1024 _ a _ _ b by (rule realloc_copy_path) (simp_all add: NULL_def)
  also have "mm_free (memcpy \<lparr>mem = mem_placed_1024, mem_brk = 0x11040, mem_max_addr = 0x20000,
                    heap_listp = 0x10010, free_listp = 0x10020\<rparr> 65760 65600 1048) 65600 =
       \<lparr>mem = (\<lambda>a. if a - 65760 < 1048 \<and> (a - 65760) mod 8 = 0
                    then mem_placed_1024 (65600 + (a - 65760)) else mem_placed_1024 a)
               (65592 := 80, 65664 := 80, 65568 := 65600, 65608 := 65568, 65600 := 65568,
                65576 := 65600),
        mem_brk = 0x11040, mem_max_addr = 0x20000, heap_listp = 0x10010, free_listp = 0x10020\<rparr>"
    apply (simp add: copy_defs Let_def mem_placed_1024_def
      cong: let_weak_cong prod.case_cong_weak bind_weak_cong)
    apply (unfold mem_placed_1024_def)
    apply (rule refl)
    done
  finally show ?thesis .
qed


lemma realloc_420_eq:
  "mm_realloc heap_two 65600 420 =
     Some (65760,
       \<lparr>mem = (\<lambda>a. if a - 65760 < 448 \<and> (a - 65760) mod 8 = 0
                    then mem_placed_420 (65600 + (a - 65760)) else mem_placed_420 a)
               (65592 := 80, 65664 := 80, 66208 := 65600, 65608 := 66208, 65600 := 65568,
                65576 := 65600),
        mem_brk = 0x11040, mem_max_addr = 0x20000, heap_listp = 0x10010, free_listp = 0x10020\<rparr>)"
proof -
  have a: "realloc_asize 420 = 448" by (simp add: mm_defs)
  have b: "\<not> 448 \<le> GET_SIZE heap_two (HDRP 65600)"
    "GET_ALLOC heap_two (HDRP (NEXT_BLKP heap_two 65600)) \<noteq> 0"
    by (simp_all add: heap_two_eq mm_defs)
  have "mm_realloc heap_two 65600 420 = Some (65760,
      mm_free (memcpy \<lparr>mem = mem_placed_420, mem_brk = 0x11040, mem_max_addr = 0x20000,
                    heap_listp = 0x10010, free_listp = 0x10020\<rparr> 65760 65600 448) 65600)"
    using copy_path_placed_420 _ a _ _ b by (rule realloc_copy_path) (simp_all add: NULL_def)
  also have "mm_free (memcpy \<lparr>mem = mem_placed_420, mem_brk = 0x11040, mem_max_addr = 0x20000,
                    heap_listp = 0x10010, free_listp = 0x10020\<rparr> 65760 65600 448) 65600 =
       \<lparr>mem = (\<lambda>a. if a - 65760 < 448 \<and> (a - 65760) mod 8 = 0
                    then mem_placed_420 (65600 + (a - 65760)) else mem_placed_420 a)
               (65592 := 80, 65664 := 80, 66208 := 65600, 65608 := 66208, 65600 := 65568,
                65576 := 65600),
        mem_brk = 0x11040, mem_max_addr = 0x20000, heap_listp = 0x10010, free_listp = 0x10020\<rparr>"
    apply (simp add: copy_defs Let_def mem_placed_420_def
      cong: let_weak_cong prod.case_cong_weak bind_weak_cong)
    apply (unfold mem_placed_420_def)
    apply (rule refl)
    done
  finally show ?thesis .
qed

lemmas read_defs = WSIZE_def DSIZE_def PACK_def GET_def GET_SIZE_def GET_ALLOC_def HDRP_def
  FTRP_def NEXT_BLKP_def PREV_BLKP_def fb_prev_def fb_next_def

lemma walk_numeral:
  "heap_walk (numeral k) s bp =
     (if GET_SIZE s (HDRP bp) > 0 then bp # heap_walk (pred_numeral k) s (NEXT_BLKP s bp) else [])"
  "heap_walk 1 s bp = (if GET_SIZE s (HDRP bp) > 0 then [bp] else [])"
  "free_walk (numeral k) s bp =
     (if bp = free_listp s then [] else bp # free_walk (pred_numeral k) s (fb_next s bp))"
  "free_walk 1 s bp = (if bp = free_listp s then [] else [bp])"
  by (simp_all add: numeral_eq_Suc)

text \<open>Claim C1. The invariant "every block whose allocated bit is 0 is in the free list
  exactly once" does not survive a \<^verbatim>\<open>mm_realloc\<close> that takes the copy path. After
  \<^verbatim>\<open>mm_init\<close>, \<open>p = mm_malloc(64)\<close> and \<open>q = mm_malloc(64)\<close>, the call
  \<open>mm_realloc(p, 1024)\<close> returns \<open>0x100e0\<close>; the second \<^verbatim>\<open>place\<close> on the block that
  \<^verbatim>\<open>mm_malloc\<close> had already placed runs \<^verbatim>\<open>remove_free\<close> with the stale links of that
  block and so unlinks the remainder that the first \<^verbatim>\<open>place\<close> had just added. In the
  heap the call leaves, the walk over the blocks meets the block \<open>0x10510\<close>, whose
  allocated bit is 0, and the walk over the free list meets the freed old block only.\<close>

theorem realloc_copy_loses_free_block:
  "(case mm_realloc heap_two 65600 1024 of
      None \<Rightarrow> False
    | Some (newptr, s') \<Rightarrow>
        newptr = 65760 \<and>
        heap_walk 8 s' (heap_listp s') = [65552, 65568, 65600, 65680, 65760, 66832] \<and>
        GET_ALLOC s' (HDRP 66832) = 0 \<and>
        free_walk 8 s' (fb_next s' (free_listp s')) = [65600])"
  by (simp add: realloc_1024_eq walk_numeral read_defs mem_placed_1024_def)

text \<open>Claim C2. On the copy path \<^verbatim>\<open>mm_realloc\<close> passes \<open>asize\<close>, not
  \<open>min(oldsize - 2 WSIZE, size)\<close>, to \<^verbatim>\<open>memcpy\<close>. In the run above the old block has
  64 bytes of payload and 1048 bytes are copied: the words at offsets 64 and 72 of the new
  payload hold the old block's footer and the header of its neighbour. With a new size of
  420 bytes (\<open>asize = 448\<close>, a hard-coded case of \<^verbatim>\<open>mm_malloc\<close>) the second
  \<^verbatim>\<open>place\<close> splits the new block to 448 bytes, and the copy of 448 bytes then
  overwrites the footer of the new block and the header of the block behind it.\<close>

theorem realloc_copies_asize_bytes:
  "realloc_asize 1024 = 1048 \<and>
   min (unat (GET_SIZE heap_two (HDRP 65600)) - 2 * unat WSIZE) 1024 = 64 \<and>
   GET heap_two (FTRP heap_two 65600) = 81 \<and> GET heap_two (HDRP 65680) = 81 \<and>
   (case mm_realloc heap_two 65600 1024 of
      None \<Rightarrow> False
    | Some (newptr, s') \<Rightarrow>
        newptr = 65760 \<and> GET s' (newptr + 64) = 81 \<and> GET s' (newptr + 72) = 81) \<and>
   (case mm_realloc heap_two 65600 420 of
      None \<Rightarrow> False
    | Some (newptr, s') \<Rightarrow>
        newptr = 65760 \<and> GET s' (HDRP newptr) = PACK 448 1 \<and> GET s' (FTRP s' newptr) = 0 \<and>
        GET s' (HDRP (NEXT_BLKP s' newptr)) = 0)"
proof -
  have "realloc_asize 1024 = 1048"
    by (simp add: realloc_asize_def ROUND_def MAX_c_def DSIZE_def WSIZE_def)
  moreover have "min (unat (GET_SIZE heap_two (HDRP 65600)) - 2 * unat WSIZE) 1024 = 64"
    "GET heap_two (FTRP heap_two 65600) = 81" "GET heap_two (HDRP 65680) = 81"
    by (simp_all add: heap_two_eq read_defs)
  moreover have "case mm_realloc heap_two 65600 1024 of
      None \<Rightarrow> False
    | Some (newptr, s') \<Rightarrow>
        newptr = 65760 \<and> GET s' (newptr + 64) = 81 \<and> GET s' (newptr + 72) = 81"
    by (simp add: realloc_1024_eq read_defs mem_placed_1024_def)
  moreover have "case mm_realloc heap_two 65600 420 of
      None \<Rightarrow> False
    | Some (newptr, s') \<Rightarrow>
        newptr = 65760 \<and> GET s' (HDRP newptr) = PACK 448 1 \<and> GET s' (FTRP s' newptr) = 0 \<and>
        GET s' (HDRP (NEXT_BLKP s' newptr)) = 0"
    by (simp add: realloc_420_eq read_defs mem_placed_420_def)
  ultimately show ?thesis by blast
qed

section \<open>Coalescing\<close>

lemma free_list_links:
  assumes "free_list s xs" and "x \<in> set xs"
  shows "fb_next s x \<in> set (free_listp s # xs) - {x}"
    and "fb_prev s x \<in> set (free_listp s # xs) - {x}"
proof -
  let ?F = "free_listp s"
  from assms have n: "chain (fb_next s) ?F xs ?F" and p: "chain (fb_prev s) ?F (rev xs) ?F"
    and d: "distinct (?F # xs)"
    by (simp_all add: free_list_def)
  from assms(2) obtain as bs where xs: "xs = as @ x # bs" by (auto simp: in_set_conv_decomp)
  with n have "chain (fb_next s) x bs ?F" by (simp add: chain_append)
  from chain_hd [OF this] have "fb_next s x \<in> set (?F # bs)" by (cases bs) auto
  with d xs show "fb_next s x \<in> set (?F # xs) - {x}" by auto
  from p xs have "chain (fb_prev s) x (rev as) ?F" by (simp add: chain_append)
  from chain_hd [OF this] have "fb_prev s x \<in> set (?F # as)" by (cases "rev as") auto
  with d xs show "fb_prev s x \<in> set (?F # xs) - {x}" by auto
qed

lemma remove_free_frame:
  assumes fl: "free_list s xs" and x: "x \<in> set xs"
    and a: "\<And>y. y \<in> set (free_listp s # xs) \<Longrightarrow> y \<noteq> x \<Longrightarrow> a \<noteq> y \<and> a \<noteq> y + 8"
  shows "mem (remove_free s x) a = mem s a"
proof -
  have "a \<noteq> fb_next s x" using free_list_links(1) [OF fl x] a by blast
  moreover have "a \<noteq> fb_prev s x + 8" using free_list_links(2) [OF fl x] a by blast
  ultimately show ?thesis by (simp add: remove_free_mem [OF fl x])
qed

lemma remove_free_fields:
  assumes "free_list s xs" and "x \<in> set xs"
  shows "free_listp (remove_free s x) = free_listp s" "mem_brk (remove_free s x) = mem_brk s"
  by (simp_all add: remove_free_mem [OF assms])

lemma add_free_frame:
  assumes fl: "free_list s xs"
    and a: "a \<noteq> bp" "a \<noteq> bp + 8" "\<And>y. y \<in> set (free_listp s # xs) \<Longrightarrow> a \<noteq> y \<and> a \<noteq> y + 8"
  shows "mem (add_free s bp) a = mem s a"
proof -
  have "a \<noteq> fb_next s (free_listp s)" using free_list_nodes(1) [OF fl] a(3) by blast
  moreover have "a \<noteq> free_listp s + 8" using a(3) [of "free_listp s"] by simp
  ultimately show ?thesis using a(1,2) by (simp add: add_free_mem [OF fl])
qed

lemma add_free_fields:
  assumes "free_list s xs"
  shows "free_listp (add_free s bp) = free_listp s" "mem_brk (add_free s bp) = mem_brk s"
  by (simp_all add: add_free_mem [OF assms])

lemma region_clear:
  fixes A :: word64
  assumes "tot \<le> y - m" "32 \<le> m - y" "32 \<le> tot" "A - (m - 16) \<le> tot + 8"
  shows "A \<noteq> y \<and> A \<noteq> y + 8"
  using assms by uint_arith

lemma merge_finish:
  assumes fl: "free_list s ys"
    and sep0: "\<forall>y \<in> set (free_listp s # ys). tot \<le> y - m \<and> 32 \<le> m - y"
    and am: "aligned m" and at: "aligned tot" and t32: "32 \<le> tot"
  defines "s' \<equiv> add_free (PUT (PUT s (m - 8) (PACK tot 0)) (m + tot - 16) (PACK tot 0)) m"
  shows "free_list s' (m # ys)"
    and "mem s' (m - 8) = PACK tot 0" and "mem s' (m + tot - 16) = PACK tot 0"
    and "\<And>a. a \<noteq> m - 8 \<Longrightarrow> a \<noteq> m + tot - 16 \<Longrightarrow> a \<noteq> m \<Longrightarrow> a \<noteq> m + 8 \<Longrightarrow>
           (\<And>y. y \<in> set (free_listp s # ys) \<Longrightarrow> a \<noteq> y \<and> a \<noteq> y + 8) \<Longrightarrow> mem s' a = mem s a"
    and "free_listp s' = free_listp s" and "mem_brk s' = mem_brk s"
proof -
  have sep: "\<And>y. y \<in> set (free_listp s # ys) \<Longrightarrow> tot \<le> y - m \<and> 32 \<le> m - y"
    using sep0 by blast
  define F where "F = free_listp s"
  define h where "h = m - 8"
  define f where "f = m + tot - 16"
  define pk where "pk = PACK tot 0"
  define s1 where "s1 = PUT s h pk"
  define s2 where "s2 = PUT s1 f pk"
  have s': "s' = add_free s2 m" by (simp add: s'_def s2_def s1_def h_def f_def pk_def)
  have sepF: "tot \<le> F - m \<and> 32 \<le> m - F" using sep [of F] by (simp add: F_def)
  have inb: "h - (m - 16) \<le> tot + 8" "f - (m - 16) \<le> tot + 8" "m - (m - 16) \<le> tot + 8"
    "h \<noteq> f" "h \<noteq> m" "h \<noteq> m + 8" "f \<noteq> m" "f \<noteq> m + 8"
    unfolding h_def f_def using sepF t32 by uint_arith+
  have clr: "h \<noteq> y \<and> h \<noteq> y + 8" "f \<noteq> y \<and> f \<noteq> y + 8" "m \<noteq> y \<and> m \<noteq> y + 8"
    if "y \<in> set (F # ys)" for y
    using sep [of y] that region_clear [OF _ _ t32 inb(1), of y] region_clear [OF _ _ t32 inb(2), of y]
      region_clear [OF _ _ t32 inb(3), of y] unfolding F_def by blast+
  have F2: "free_listp s1 = F" "free_listp s2 = F" by (simp_all add: s1_def s2_def F_def)
  have fl1: "free_list s1 ys" unfolding s1_def
    using fl by (rule free_list_PUT) (use clr(1) in \<open>simp add: F_def\<close>)
  have fl2: "free_list s2 ys" unfolding s2_def
    using fl1 by (rule free_list_PUT) (use clr(2) in \<open>simp add: F2\<close>)
  have mn: "m \<notin> set (free_listp s2 # ys)" using clr(3) by (auto simp: F2)
  show "free_list s' (m # ys)" unfolding s' using fl2 mn am by (rule add_free_list)
  have fr: "mem s' a = mem s2 a"
    if "a \<noteq> m" "a \<noteq> m + 8" "\<And>y. y \<in> set (F # ys) \<Longrightarrow> a \<noteq> y \<and> a \<noteq> y + 8" for a
    unfolding s' using fl2 that by (intro add_free_frame) (simp_all add: F2)
  have "mem s' h = mem s2 h" using inb clr(1) by (intro fr) simp_all
  then show "mem s' (m - 8) = PACK tot 0"
    using inb by (simp add: s2_def s1_def h_def [symmetric] pk_def)
  have "mem s' f = mem s2 f" using inb clr(2) by (intro fr) simp_all
  then show "mem s' (m + tot - 16) = PACK tot 0"
    by (simp add: s2_def f_def [symmetric] pk_def)
  have "free_listp (add_free s2 m) = free_listp s2" "mem_brk (add_free s2 m) = mem_brk s2"
    by (rule add_free_fields [OF fl2])+
  then show "free_listp s' = free_listp s" "mem_brk s' = mem_brk s"
    unfolding s' by (simp_all add: s2_def s1_def)
  fix a
  assume a: "a \<noteq> m - 8" "a \<noteq> m + tot - 16" "a \<noteq> m" "a \<noteq> m + 8"
    "\<And>y. y \<in> set (free_listp s # ys) \<Longrightarrow> a \<noteq> y \<and> a \<noteq> y + 8"
  have "mem s' a = mem s2 a" using a by (intro fr) (simp_all add: F_def)
  then show "mem s' a = mem s a" using a(1,2) by (simp add: s2_def s1_def h_def f_def)
qed


lemma merge_block:
  assumes fl: "free_list s ys"
    and sep0: "\<forall>y \<in> set (free_listp s # ys). tot \<le> y - m \<and> 32 \<le> m - y"
    and am: "aligned m" and at: "aligned tot" and t32: "32 \<le> tot"
  defines "s' \<equiv> add_free (PUT (PUT s (HDRP m) (PACK tot 0))
                  (FTRP (PUT s (HDRP m) (PACK tot 0)) m) (PACK tot 0)) m"
  shows "free_list s' (m # ys)"
    and "GET s' (HDRP m) = PACK tot 0" and "GET s' (FTRP s' m) = PACK tot 0"
    and "NEXT_BLKP s' m = m + tot"
    and "mem s' (m - 16) = mem s (m - 16)" and "mem s' (m + tot - 8) = mem s (m + tot - 8)"
    and "free_listp s' = free_listp s" and "mem_brk s' = mem_brk s"
proof -
  have sep: "\<And>y. y \<in> set (free_listp s # ys) \<Longrightarrow> tot \<le> y - m \<and> 32 \<le> m - y"
    using sep0 by blast
  have h: "HDRP m = m - 8" by (simp add: HDRP_def WSIZE_def)
  have "GET_SIZE (PUT s (m - 8) (PACK tot 0)) (m - 8) = tot" using at by (rule GET_SIZE_PUT_PACK(2))
  then have f: "FTRP (PUT s (m - 8) (PACK tot 0)) m = m + tot - 16"
    by (simp add: FTRP_def h DSIZE_def WSIZE_def)
  have s': "s' = add_free (PUT (PUT s (m - 8) (PACK tot 0)) (m + tot - 16) (PACK tot 0)) m"
    by (simp add: s'_def h f)
  note mf = merge_finish [OF fl sep0 am at t32]
  show "free_list s' (m # ys)" unfolding s' by (rule mf(1))
  have g1: "mem s' (m - 8) = PACK tot 0" unfolding s' by (rule mf(2))
  have g2: "mem s' (m + tot - 16) = PACK tot 0" unfolding s' by (rule mf(3))
  note g = g1 g2
  show "GET s' (HDRP m) = PACK tot 0" by (simp add: GET_def h g)
  have sz: "GET_SIZE s' (m - 8) = tot"
    using at by (simp add: GET_SIZE_def GET_def g PACK_def DSIZE_def WSIZE_def size_PACK_0)
  then have f': "FTRP s' m = m + tot - 16" by (simp add: FTRP_def h DSIZE_def WSIZE_def)
  show "GET s' (FTRP s' m) = PACK tot 0" by (simp add: f' GET_def g)
  show "NEXT_BLKP s' m = m + tot" by (simp add: NEXT_BLKP_def WSIZE_def sz)
  show "free_listp s' = free_listp s" unfolding s' by (rule mf(5))
  show "mem_brk s' = mem_brk s" unfolding s' by (rule mf(6))
  have sepF: "tot \<le> free_listp s - m \<and> 32 \<le> m - free_listp s" using sep [of "free_listp s"] by simp
  have inb: "(m - 16) - (m - 16) \<le> tot + 8" "(m + tot - 8) - (m - 16) \<le> tot + 8"
    "m - 16 \<noteq> m - 8" "m - 16 \<noteq> m + tot - 16" "m - 16 \<noteq> m" "m - 16 \<noteq> m + 8"
    "m + tot - 8 \<noteq> m - 8" "m + tot - 8 \<noteq> m + tot - 16" "m + tot - 8 \<noteq> m" "m + tot - 8 \<noteq> m + 8"
    using sepF t32 by uint_arith+
  show "mem s' (m - 16) = mem s (m - 16)"
    unfolding s' by (rule mf(4) [OF inb(3) inb(4) inb(5) inb(6)])
      (use sep region_clear [OF _ _ t32 inb(1)] in blast)
  show "mem s' (m + tot - 8) = mem s (m + tot - 8)"
    unfolding s' by (rule mf(4) [OF inb(7) inb(8) inb(9) inb(10)])
      (use sep region_clear [OF _ _ t32 inb(2)] in blast)
qed


lemma merge_two:
  fixes sz :: word64
  assumes "sz \<le> y - bp" "32 \<le> bp - y" "nsz \<le> y - (bp + sz)" "32 \<le> sz" "32 \<le> nsz"
  shows "sz + nsz \<le> y - bp \<and> 32 \<le> sz + nsz"
  using assms by uint_arith

lemma merge_two_prev:
  fixes sz :: word64
  assumes "psz \<le> y - (bp - psz)" "32 \<le> (bp - psz) - y" "sz \<le> y - bp" "32 \<le> sz" "32 \<le> psz"
  shows "sz + psz \<le> y - (bp - psz) \<and> 32 \<le> sz + psz"
  using assms by uint_arith

lemma merge_three:
  fixes sz :: word64
  assumes "psz \<le> y - (bp - psz)" "32 \<le> (bp - psz) - y" "sz \<le> y - bp"
    "nsz \<le> y - (bp + sz)" "32 \<le> sz" "32 \<le> psz" "32 \<le> nsz"
  shows "sz + (psz + nsz) \<le> y - (bp - psz) \<and> 32 \<le> sz + (psz + nsz)"
  using assms by uint_arith

lemma filter_neq_remove1: "distinct xs \<Longrightarrow> filter (\<lambda>x. x \<noteq> a) xs = remove1 a xs"
  by (induction xs) (auto simp: remove1_idem)

lemma FTRP_PREV:
  assumes "GET_SIZE s (HDRP (PREV_BLKP s bp)) = GET_SIZE s (bp - DSIZE)"
  shows "FTRP s (PREV_BLKP s bp) = bp - 16"
proof -
  have "FTRP s (PREV_BLKP s bp) = PREV_BLKP s bp + GET_SIZE s (bp - DSIZE) - DSIZE"
    by (simp only: FTRP_def assms)
  then show ?thesis by (simp add: PREV_BLKP_def DSIZE_def WSIZE_def)
qed

lemma add_free_region_frame:
  assumes fl: "free_list s xs"
    and sep: "\<forall>y \<in> set (free_listp s # xs). tot \<le> y - m \<and> 32 \<le> m - y"
    and t32: "32 \<le> tot" and inr: "A - (m - 16) \<le> tot + 8" and ne: "A \<noteq> bp" "A \<noteq> bp + 8"
  shows "mem (add_free s bp) A = mem s A"
  using fl ne
proof (rule add_free_frame)
  fix y assume "y \<in> set (free_listp s # xs)"
  with sep have "tot \<le> y - m" "32 \<le> m - y" by blast+
  then show "A \<noteq> y \<and> A \<noteq> y + 8" using t32 inr by (rule region_clear)
qed

lemma remove_free_region_frame:
  assumes fl: "free_list s xs" and x: "x \<in> set xs"
    and sep: "\<forall>y \<in> set (free_listp s # xs). y \<noteq> x \<longrightarrow> tot \<le> y - m \<and> 32 \<le> m - y"
    and t32: "32 \<le> tot" and inr: "A - (m - 16) \<le> tot + 8"
  shows "mem (remove_free s x) A = mem s A"
  using fl x
proof (rule remove_free_frame)
  fix y assume "y \<in> set (free_listp s # xs)" "y \<noteq> x"
  with sep have "tot \<le> y - m" "32 \<le> m - y" by blast+
  then show "A \<noteq> y \<and> A \<noteq> y + 8" using t32 inr by (rule region_clear)
qed

lemma coalesce_case1:
  assumes fl: "free_list s xs" and abp: "aligned bp"
    and hd0: "GET s (HDRP bp) = PACK (GET_SIZE s (HDRP bp)) 0"
    and ft0: "GET s (FTRP s bp) = GET s (HDRP bp)"
    and dj: "disjoint_blocks s (insert bp (set (free_listp s # xs)))"
    and nb: "bp \<notin> set (free_listp s # xs)"
    and pv: "GET_SIZE s (HDRP (PREV_BLKP s bp)) = GET_SIZE s (bp - DSIZE)"
    and pa: "GET_ALLOC s (bp - DSIZE) \<noteq> 0" and na: "GET_ALLOC s (HDRP (NEXT_BLKP s bp)) \<noteq> 0"
  shows "coalesce s bp = (bp, add_free s bp)"
    and "GET (add_free s bp) (HDRP bp) = PACK (GET_SIZE s (HDRP bp)) 0"
    and "GET (add_free s bp) (FTRP (add_free s bp) bp) = PACK (GET_SIZE s (HDRP bp)) 0"
    and "free_list (add_free s bp) (bp # xs)"
    and "GET_ALLOC (add_free s bp) (bp - DSIZE) \<noteq> 0"
    and "GET_ALLOC (add_free s bp) (HDRP (NEXT_BLKP (add_free s bp) bp)) \<noteq> 0"
proof -
  define sz where "sz = GET_SIZE s (HDRP bp)"
  define s' where "s' = add_free s bp"
  let ?X = "set (free_listp s # xs)"
  have h: "HDRP x = x - 8" for x by (simp add: HDRP_def WSIZE_def)
  have ftp: "FTRP s (PREV_BLKP s bp) = bp - 16" using pv by (rule FTRP_PREV)
  show c: "coalesce s bp = (bp, add_free s bp)"
    using pa na by (simp add: coalesce_def Let_def ftp) (simp add: DSIZE_def WSIZE_def)
  have sz32: "32 \<le> sz" using dj by (simp add: disjoint_blocks_def sz_def DSIZE_def WSIZE_def)
  have J: "sz \<le> y - bp \<and> 32 \<le> bp - y" if "y \<in> ?X" for y
    using disjoint_blocksD [OF dj, of bp y] that nb by (auto simp: sz_def)
  have JF: "sz \<le> free_listp s - bp \<and> 32 \<le> bp - free_listp s" by (rule J) simp
  have inb: "(bp - 8) - (bp - 16) \<le> sz + 8" "(bp + sz - 16) - (bp - 16) \<le> sz + 8"
    "(bp - 16) - (bp - 16) \<le> sz + 8" "(bp + sz - 8) - (bp - 16) \<le> sz + 8"
    "bp - 8 \<noteq> bp" "bp + sz - 16 \<noteq> bp" "bp - 16 \<noteq> bp" "bp + sz - 8 \<noteq> bp"
    "bp - 8 \<noteq> bp + 8" "bp + sz - 16 \<noteq> bp + 8" "bp - 16 \<noteq> bp + 8" "bp + sz - 8 \<noteq> bp + 8"
    using JF sz32 by uint_arith+
  have JA: "\<forall>y \<in> ?X. sz \<le> y - bp \<and> 32 \<le> bp - y" using J by blast
  have fr: "mem s' (bp - 8) = mem s (bp - 8)" "mem s' (bp + sz - 16) = mem s (bp + sz - 16)"
    "mem s' (bp - 16) = mem s (bp - 16)" "mem s' (bp + sz - 8) = mem s (bp + sz - 8)"
    unfolding s'_def
    using add_free_region_frame [OF fl JA sz32 inb(1) inb(5) inb(9)]
      add_free_region_frame [OF fl JA sz32 inb(2) inb(6) inb(10)]
      add_free_region_frame [OF fl JA sz32 inb(3) inb(7) inb(11)]
      add_free_region_frame [OF fl JA sz32 inb(4) inb(8) inb(12)] by blast+
  have asz: "aligned sz" by (simp add: sz_def aligned_GET_SIZE)
  have szh: "GET_SIZE s (bp - 8) = sz" by (simp add: sz_def h)
  have m0: "mem s (bp - 8) = PACK sz 0" using hd0 by (simp add: GET_def h szh)
  have f0: "FTRP s bp = bp + sz - 16" by (simp add: FTRP_def h szh DSIZE_def WSIZE_def)
  have m1: "mem s (bp + sz - 16) = PACK sz 0" using ft0 m0 by (simp add: f0 GET_def h)
  have sz': "GET_SIZE s' (bp - 8) = sz"
    using asz by (simp add: GET_SIZE_def GET_def fr m0 PACK_def DSIZE_def WSIZE_def size_PACK_0)
  have f': "FTRP s' bp = bp + sz - 16" by (simp add: FTRP_def h sz' DSIZE_def WSIZE_def)
  have n': "NEXT_BLKP s' bp = bp + sz" by (simp add: NEXT_BLKP_def WSIZE_def sz')
  have n0: "NEXT_BLKP s bp = bp + sz" by (simp add: NEXT_BLKP_def WSIZE_def szh)
  show "GET (add_free s bp) (HDRP bp) = PACK (GET_SIZE s (HDRP bp)) 0"
    using fr(1) m0 by (simp add: GET_def h s'_def szh)
  show "GET (add_free s bp) (FTRP (add_free s bp) bp) = PACK (GET_SIZE s (HDRP bp)) 0"
    using f' fr(2) m1 by (simp add: GET_def s'_def h szh)
  show "free_list (add_free s bp) (bp # xs)" using fl nb abp by (rule add_free_list)
  show "GET_ALLOC (add_free s bp) (bp - DSIZE) \<noteq> 0"
    using pa fr(3) by (simp add: GET_ALLOC_def GET_def DSIZE_def WSIZE_def s'_def)
  show "GET_ALLOC (add_free s bp) (HDRP (NEXT_BLKP (add_free s bp) bp)) \<noteq> 0"
    using na n' fr(4) by (simp add: GET_ALLOC_def GET_def h n0 s'_def)
qed

lemma coalesce_case2:
  assumes fl: "free_list s xs" and abp: "aligned bp"
    and dj: "disjoint_blocks s (insert bp (set (free_listp s # xs)))"
    and nb: "bp \<notin> set (free_listp s # xs)"
    and pv: "GET_SIZE s (HDRP (PREV_BLKP s bp)) = GET_SIZE s (bp - DSIZE)"
    and pa: "GET_ALLOC s (bp - DSIZE) \<noteq> 0" and na: "GET_ALLOC s (HDRP (NEXT_BLKP s bp)) = 0"
    and nin: "NEXT_BLKP s bp \<in> set xs"
    and nn: "GET_ALLOC s (HDRP (NEXT_BLKP s (NEXT_BLKP s bp))) \<noteq> 0"
  defines "tot \<equiv> GET_SIZE s (HDRP bp) + GET_SIZE s (HDRP (NEXT_BLKP s bp))"
  shows "\<exists>s'. coalesce s bp = (bp, s') \<and>
           GET s' (HDRP bp) = PACK tot 0 \<and> GET s' (FTRP s' bp) = PACK tot 0 \<and>
           free_list s' (bp # remove1 (NEXT_BLKP s bp) xs) \<and>
           GET_ALLOC s' (bp - DSIZE) \<noteq> 0 \<and> GET_ALLOC s' (HDRP (NEXT_BLKP s' bp)) \<noteq> 0"
proof -
  define sz where "sz = GET_SIZE s (HDRP bp)"
  define n where "n = NEXT_BLKP s bp"
  define nsz where "nsz = GET_SIZE s (HDRP n)"
  define F where "F = free_listp s"
  let ?X = "set (F # xs)"
  have h: "HDRP x = x - 8" for x by (simp add: HDRP_def WSIZE_def)
  have szh: "GET_SIZE s (bp - 8) = sz" by (simp add: sz_def h)
  have n0: "n = bp + sz" by (simp add: n_def NEXT_BLKP_def WSIZE_def szh)
  have tot: "tot = sz + nsz" by (simp add: tot_def sz_def nsz_def n_def)
  have ftp: "FTRP s (PREV_BLKP s bp) = bp - 16" using pv by (rule FTRP_PREV)
  have nX: "n \<in> set xs" using nin by (simp add: n_def)
  have d: "distinct (F # xs)" using fl by (simp add: free_list_def F_def)
  have sz32: "32 \<le> sz" "32 \<le> nsz"
    using dj nX by (auto simp: disjoint_blocks_def sz_def nsz_def DSIZE_def WSIZE_def F_def)
  have J: "sz \<le> y - bp \<and> 32 \<le> bp - y" if "y \<in> ?X" for y
    using disjoint_blocksD [OF dj, of bp y] that nb by (auto simp: sz_def F_def)
  have Jn: "nsz \<le> y - (bp + sz) \<and> 32 \<le> (bp + sz) - y" if "y \<in> ?X" "y \<noteq> n" for y
    using disjoint_blocksD [OF dj, of n y] that nX by (auto simp: nsz_def F_def n0)
  have M: "tot \<le> y - bp \<and> 32 \<le> tot" if "y \<in> ?X" "y \<noteq> n" for y
    unfolding tot using J [OF that(1)] Jn [OF that] sz32 by (intro merge_two) blast+
  have Fn: "F \<noteq> n" using d nX by auto
  have t32: "32 \<le> tot" using M [of F] Fn by simp
  have at: "aligned tot" unfolding tot_def by (intro aligned_add aligned_GET_SIZE)
  have sep2: "\<forall>y \<in> set (free_listp s # xs). y \<noteq> n \<longrightarrow> tot \<le> y - bp \<and> 32 \<le> bp - y"
    using M J by (auto simp: F_def)
  define s1 where "s1 = remove_free s n"
  have fl1: "free_list s1 (remove1 n xs)" unfolding s1_def using fl nX by (rule remove_free_list)
  have F1: "free_listp s1 = F" unfolding s1_def F_def using fl nX by (rule remove_free_fields)
  have sep1: "\<forall>y \<in> set (free_listp s1 # remove1 n xs). tot \<le> y - bp \<and> 32 \<le> bp - y"
    using sep2 d Fn by (auto simp: F1 F_def)
  define s' where "s' = add_free (PUT (PUT s1 (HDRP bp) (PACK tot 0))
                  (FTRP (PUT s1 (HDRP bp) (PACK tot 0)) bp) (PACK tot 0)) bp"
  note mb = merge_block [OF fl1 sep1 abp at t32, folded s'_def]
  have c: "coalesce s bp = (bp, s')"
    unfolding s'_def s1_def n_def tot_def using pa na
    by (simp add: coalesce_def Let_def ftp) (simp add: DSIZE_def WSIZE_def)
  have inb: "(bp - 16) - (bp - 16) \<le> tot + 8" "(bp + tot - 8) - (bp - 16) \<le> tot + 8"
    using M [of F] Fn J [of F] by simp_all
  have o1: "mem s1 (bp - 16) = mem s (bp - 16)" unfolding s1_def
    using fl nX sep2 t32 inb(1) by (rule remove_free_region_frame)
  have o2: "mem s1 (bp + tot - 8) = mem s (bp + tot - 8)" unfolding s1_def
    using fl nX sep2 t32 inb(2) by (rule remove_free_region_frame)
  have nsz': "GET_SIZE s (n - 8) = nsz" by (simp add: nsz_def h)
  have "NEXT_BLKP s n = n + nsz" by (simp add: NEXT_BLKP_def WSIZE_def nsz')
  hence nx: "HDRP (NEXT_BLKP s (NEXT_BLKP s bp)) = bp + tot - 8"
    unfolding n_def [symmetric] by (simp add: h n0 tot)
  have "GET_ALLOC s' (bp - DSIZE) \<noteq> 0"
    using pa by (simp add: GET_ALLOC_def GET_def DSIZE_def WSIZE_def mb(5) o1)
  moreover have "GET_ALLOC s' (HDRP (NEXT_BLKP s' bp)) \<noteq> 0"
    using nn unfolding nx by (simp add: GET_ALLOC_def GET_def mb(4) h mb(6) o2)
  ultimately show ?thesis using c mb(1-3) by (auto simp: n_def)
qed


lemma coalesce_case3:
  assumes fl: "free_list s xs" and abp: "aligned bp"
    and dj: "disjoint_blocks s (insert bp (set (free_listp s # xs)))"
    and nb: "bp \<notin> set (free_listp s # xs)"
    and pv: "GET_SIZE s (HDRP (PREV_BLKP s bp)) = GET_SIZE s (bp - DSIZE)"
    and pa: "GET_ALLOC s (bp - DSIZE) = 0" and na: "GET_ALLOC s (HDRP (NEXT_BLKP s bp)) \<noteq> 0"
    and pin: "PREV_BLKP s bp \<in> set xs"
    and pp: "GET_ALLOC s (PREV_BLKP s bp - DSIZE) \<noteq> 0"
  defines "tot \<equiv> GET_SIZE s (HDRP bp) + GET_SIZE s (HDRP (PREV_BLKP s bp))"
  shows "\<exists>s'. coalesce s bp = (PREV_BLKP s bp, s') \<and>
           GET s' (HDRP (PREV_BLKP s bp)) = PACK tot 0 \<and>
           GET s' (FTRP s' (PREV_BLKP s bp)) = PACK tot 0 \<and>
           free_list s' (PREV_BLKP s bp # remove1 (PREV_BLKP s bp) xs) \<and>
           GET_ALLOC s' (PREV_BLKP s bp - DSIZE) \<noteq> 0 \<and>
           GET_ALLOC s' (HDRP (NEXT_BLKP s' (PREV_BLKP s bp))) \<noteq> 0 \<and>
           free_listp s' = free_listp s"
proof -
  define sz where "sz = GET_SIZE s (HDRP bp)"
  define p where "p = PREV_BLKP s bp"
  define psz where "psz = GET_SIZE s (HDRP p)"
  define F where "F = free_listp s"
  let ?X = "set (F # xs)"
  have h: "HDRP x = x - 8" for x by (simp add: HDRP_def WSIZE_def)
  have szh: "GET_SIZE s (bp - 8) = sz" by (simp add: sz_def h)
  have psz': "GET_SIZE s (bp - 16) = psz" using pv by (simp add: psz_def p_def DSIZE_def WSIZE_def)
  have p0: "p = bp - psz" by (simp add: p_def PREV_BLKP_def DSIZE_def WSIZE_def psz')
  have tot: "tot = sz + psz" by (simp add: tot_def sz_def psz_def p_def)
  have ftp: "FTRP s (PREV_BLKP s bp) = bp - 16" using pv by (rule FTRP_PREV)
  have pX: "p \<in> set xs" using pin by (simp add: p_def)
  have d: "distinct (F # xs)" using fl by (simp add: free_list_def F_def)
  have sz32: "32 \<le> sz" "32 \<le> psz"
    using dj pX by (auto simp: disjoint_blocks_def sz_def psz_def DSIZE_def WSIZE_def F_def)
  have J: "sz \<le> y - bp \<and> 32 \<le> bp - y" if "y \<in> ?X" for y
    using disjoint_blocksD [OF dj, of bp y] that nb by (auto simp: sz_def F_def)
  have Jp: "psz \<le> y - p \<and> 32 \<le> p - y" if "y \<in> ?X" "y \<noteq> p" for y
    using disjoint_blocksD [OF dj, of p y] that pX by (auto simp: psz_def F_def)
  have M: "tot \<le> y - p \<and> 32 \<le> tot" if "y \<in> ?X" "y \<noteq> p" for y
    unfolding tot p0 using J [OF that(1)] Jp [OF that, unfolded p0] sz32 by (intro merge_two_prev) blast+
  have Fp: "F \<noteq> p" using d pX by auto
  have t32: "32 \<le> tot" using M [of F] Fp by simp
  have at: "aligned tot" unfolding tot_def by (intro aligned_add aligned_GET_SIZE)
  have "aligned psz" unfolding psz_def by (rule aligned_GET_SIZE)
  with abp have ap: "aligned p" unfolding p0 by (intro aligned_diff)
  have sep2: "\<forall>y \<in> set (free_listp s # xs). y \<noteq> p \<longrightarrow> tot \<le> y - p \<and> 32 \<le> p - y"
    using M Jp by (auto simp: F_def)
  define s1 where "s1 = remove_free s p"
  have fl1: "free_list s1 (remove1 p xs)" unfolding s1_def using fl pX by (rule remove_free_list)
  have F1: "free_listp s1 = F" unfolding s1_def F_def using fl pX by (rule remove_free_fields)
  have sep1: "\<forall>y \<in> set (free_listp s1 # remove1 p xs). tot \<le> y - p \<and> 32 \<le> p - y"
    using sep2 d Fp by (auto simp: F1 F_def)
  define s' where "s' = add_free (PUT (PUT s1 (HDRP p) (PACK tot 0))
                  (FTRP (PUT s1 (HDRP p) (PACK tot 0)) p) (PACK tot 0)) p"
  note mb = merge_block [OF fl1 sep1 ap at t32, folded s'_def]
  have c: "coalesce s bp = (p, s')"
    unfolding s'_def s1_def p_def tot_def using pa na
    by (simp add: coalesce_def Let_def ftp) (simp add: DSIZE_def WSIZE_def)
  have inb: "(p - 16) - (p - 16) \<le> tot + 8" "(p + tot - 8) - (p - 16) \<le> tot + 8"
    using M [of F] Fp J [of F] by simp_all
  have o1: "mem s1 (p - 16) = mem s (p - 16)" unfolding s1_def
    using fl pX sep2 t32 inb(1) by (rule remove_free_region_frame)
  have o2: "mem s1 (p + tot - 8) = mem s (p + tot - 8)" unfolding s1_def
    using fl pX sep2 t32 inb(2) by (rule remove_free_region_frame)
  have "NEXT_BLKP s bp = bp + sz" by (simp add: NEXT_BLKP_def WSIZE_def szh)
  hence nx: "HDRP (NEXT_BLKP s bp) = p + tot - 8"
    by (simp add: h p0 tot)
  have "GET_ALLOC s' (p - DSIZE) \<noteq> 0"
    using pp by (simp add: GET_ALLOC_def GET_def DSIZE_def WSIZE_def mb(5) o1 p_def [symmetric])
  moreover have "GET_ALLOC s' (HDRP (NEXT_BLKP s' p)) \<noteq> 0"
    using na unfolding nx by (simp add: GET_ALLOC_def GET_def mb(4) h mb(6) o2)
  moreover have "free_listp s' = free_listp s" using mb(7) F1 by (simp add: F_def)
  ultimately show ?thesis using c mb(1-3) by (auto simp: p_def)
qed


lemma far_clear:
  fixes m :: word64
  assumes "tot \<le> y - m" "32 \<le> m - y" "32 \<le> tot"
  shows "m + tot - 8 \<noteq> y \<and> m + tot - 8 \<noteq> y + 8"
  using assms by uint_arith

lemma end_clear:
  fixes n :: word64
  assumes "32 \<le> nsz"
  shows "n + nsz - 8 \<noteq> n \<and> n + nsz - 8 \<noteq> n + 8"
  using assms by uint_arith

lemma le_plus8:
  fixes a :: word64
  assumes "a \<le> t" "t \<le> y - m" "32 \<le> m - y"
  shows "a + 8 \<le> t + 8 \<and> a \<le> t + 8"
  using assms by uint_arith

lemma le_sum2:
  fixes psz :: word64
  assumes "psz \<le> D" "sz \<le> D - psz"
  shows "psz \<le> sz + psz"
  using assms by uint_arith

lemma le_sum3:
  fixes psz :: word64
  assumes "psz \<le> D" "sz \<le> D - psz" "nsz \<le> D - psz - sz"
  shows "psz \<le> sz + (psz + nsz)"
  using assms by uint_arith

lemma coalesce_case4:
  assumes fl: "free_list s xs" and abp: "aligned bp"
    and dj: "disjoint_blocks s (insert bp (set (free_listp s # xs)))"
    and nb: "bp \<notin> set (free_listp s # xs)"
    and pv: "GET_SIZE s (HDRP (PREV_BLKP s bp)) = GET_SIZE s (bp - DSIZE)"
    and pa: "GET_ALLOC s (bp - DSIZE) = 0" and na: "GET_ALLOC s (HDRP (NEXT_BLKP s bp)) = 0"
    and pin: "PREV_BLKP s bp \<in> set xs"
    and pp: "GET_ALLOC s (PREV_BLKP s bp - DSIZE) \<noteq> 0"
    and nin: "NEXT_BLKP s bp \<in> set xs"
    and nft: "GET_SIZE s (FTRP s (NEXT_BLKP s bp)) = GET_SIZE s (HDRP (NEXT_BLKP s bp))"
    and nn: "GET_ALLOC s (HDRP (NEXT_BLKP s (NEXT_BLKP s bp))) \<noteq> 0"
  defines "tot \<equiv> GET_SIZE s (HDRP bp) +
             (GET_SIZE s (HDRP (PREV_BLKP s bp)) + GET_SIZE s (HDRP (NEXT_BLKP s bp)))"
  shows "\<exists>s'. coalesce s bp = (PREV_BLKP s bp, s') \<and>
           GET s' (HDRP (PREV_BLKP s bp)) = PACK tot 0 \<and>
           GET s' (FTRP s' (PREV_BLKP s bp)) = PACK tot 0 \<and>
           free_list s' (PREV_BLKP s bp # remove1 (NEXT_BLKP s bp) (remove1 (PREV_BLKP s bp) xs)) \<and>
           GET_ALLOC s' (PREV_BLKP s bp - DSIZE) \<noteq> 0 \<and>
           GET_ALLOC s' (HDRP (NEXT_BLKP s' (PREV_BLKP s bp))) \<noteq> 0"
proof -
  define sz where "sz = GET_SIZE s (HDRP bp)"
  define p where "p = PREV_BLKP s bp"
  define psz where "psz = GET_SIZE s (HDRP p)"
  define n where "n = NEXT_BLKP s bp"
  define nsz where "nsz = GET_SIZE s (HDRP n)"
  define F where "F = free_listp s"
  define t2 where "t2 = sz + psz"
  let ?X = "set (F # xs)"
  have h: "HDRP x = x - 8" for x by (simp add: HDRP_def WSIZE_def)
  have szh: "GET_SIZE s (bp - 8) = sz" by (simp add: sz_def h)
  have psz': "GET_SIZE s (bp - 16) = psz" using pv by (simp add: psz_def p_def DSIZE_def WSIZE_def)
  have nsz': "GET_SIZE s (n - 8) = nsz" by (simp add: nsz_def h)
  have p0: "p = bp - psz" by (simp add: p_def PREV_BLKP_def DSIZE_def WSIZE_def psz')
  have n0: "n = bp + sz" by (simp add: n_def NEXT_BLKP_def WSIZE_def szh)
  have tot: "tot = sz + (psz + nsz)" by (simp add: tot_def sz_def psz_def p_def nsz_def n_def)
  have ftp: "FTRP s (PREV_BLKP s bp) = bp - 16" using pv by (rule FTRP_PREV)
  have pX: "p \<in> set xs" using pin by (simp add: p_def)
  have nX: "n \<in> set xs" using nin by (simp add: n_def)
  have d: "distinct (F # xs)" using fl by (simp add: free_list_def F_def)
  have sz32: "32 \<le> sz" "32 \<le> psz" "32 \<le> nsz"
    using dj pX nX by (auto simp: disjoint_blocks_def sz_def psz_def nsz_def DSIZE_def WSIZE_def F_def)
  have J: "sz \<le> y - bp \<and> 32 \<le> bp - y" if "y \<in> ?X" for y
    using disjoint_blocksD [OF dj, of bp y] that nb by (auto simp: sz_def F_def)
  have Jp: "psz \<le> y - p \<and> 32 \<le> p - y" if "y \<in> ?X" "y \<noteq> p" for y
    using disjoint_blocksD [OF dj, of p y] that pX by (auto simp: psz_def F_def)
  have Jn: "nsz \<le> y - n \<and> 32 \<le> n - y" if "y \<in> ?X" "y \<noteq> n" for y
    using disjoint_blocksD [OF dj, of n y] that nX by (auto simp: nsz_def F_def)
  have M2: "t2 \<le> y - p \<and> 32 \<le> t2" if "y \<in> ?X" "y \<noteq> p" for y
    unfolding t2_def p0 using J [OF that(1)] Jp [OF that, unfolded p0] sz32
    by (intro merge_two_prev) blast+
  have M3: "tot \<le> y - p \<and> 32 \<le> tot" if "y \<in> ?X" "y \<noteq> p" "y \<noteq> n" for y
    unfolding tot p0 using J [OF that(1)] Jp [OF that(1,2), unfolded p0]
      Jn [OF that(1,3), unfolded n0] sz32
    by (intro merge_three) blast+
  have Fp: "F \<noteq> p" and Fn: "F \<noteq> n" using d pX nX by auto
  have t32: "32 \<le> t2" "32 \<le> tot" using M2 [of F] M3 [of F] Fp Fn by simp_all
  have "n - p = t2" by (simp add: p0 n0 t2_def)
  with t32(1) have pn: "p \<noteq> n" by auto
  have Fb: "F - bp = F - p - psz" "F - n = F - p - psz - sz" by (simp_all add: p0 n0)
  have ps2: "psz \<le> t2" unfolding t2_def
    using Jp [of F] J [of F] Fp unfolding Fb by (intro le_sum2 [of psz "F - p" sz]) simp_all
  have ps3: "psz \<le> tot" unfolding tot
    using Jp [of F] J [of F] Jn [of F] Fp Fn unfolding Fb
    by (intro le_sum3 [of psz "F - p" sz nsz]) simp_all
  have q2: "psz + 8 \<le> t2 + 8 \<and> psz \<le> t2 + 8"
    using ps2 M2 [of F] Jp [of F] Fp by (intro le_plus8 [of psz t2 F p]) simp_all
  have q3: "psz + 8 \<le> tot + 8 \<and> psz \<le> tot + 8"
    using ps3 M3 [of F] Jp [of F] Fp Fn by (intro le_plus8 [of psz tot F p]) simp_all
  have e: "(bp - 8) - (p - 16) = psz + 8" "(bp - 16) - (p - 16) = psz" "(p - 16) - (p - 16) = 0"
    "(p + tot - 8) - (p - 16) = tot + 8"
    by (simp_all add: p0)
  have at: "aligned tot" unfolding tot_def by (intro aligned_add aligned_GET_SIZE)
  have "aligned psz" unfolding psz_def by (rule aligned_GET_SIZE)
  with abp have ap: "aligned p" unfolding p0 by (intro aligned_diff)
  have sepA: "\<forall>y \<in> set (free_listp s # xs). y \<noteq> p \<longrightarrow> t2 \<le> y - p \<and> 32 \<le> p - y"
    using M2 Jp by (auto simp: F_def)
  define s1 where "s1 = remove_free s p"
  have fl1: "free_list s1 (remove1 p xs)" unfolding s1_def using fl pX by (rule remove_free_list)
  have F1: "free_listp s1 = F" unfolding s1_def F_def using fl pX by (rule remove_free_fields)
  have nX1: "n \<in> set (remove1 p xs)" using nX pn by simp
  have inA: "(bp - 8) - (p - 16) \<le> t2 + 8" "(bp - 16) - (p - 16) \<le> t2 + 8"
    "(p - 16) - (p - 16) \<le> t2 + 8"
    unfolding e using q2 by simp_all
  have a1: "mem s1 (bp - 8) = mem s (bp - 8)" unfolding s1_def
    using fl pX sepA t32(1) inA(1) by (rule remove_free_region_frame)
  have a2: "mem s1 (bp - 16) = mem s (bp - 16)" unfolding s1_def
    using fl pX sepA t32(1) inA(2) by (rule remove_free_region_frame)
  have a3: "mem s1 (p - 16) = mem s (p - 16)" unfolding s1_def
    using fl pX sepA t32(1) inA(3) by (rule remove_free_region_frame)
  have a4: "mem s1 (p + tot - 8) = mem s (p + tot - 8)" unfolding s1_def
  proof (rule remove_free_frame [OF fl pX])
    fix y assume y: "y \<in> set (free_listp s # xs)" "y \<noteq> p"
    show "p + tot - 8 \<noteq> y \<and> p + tot - 8 \<noteq> y + 8"
    proof (cases "y = n")
      case True
      have "p + tot = n + nsz" by (simp add: p0 n0 tot)
      thus ?thesis using end_clear [OF sz32(3), of n] True by simp
    next
      case False
      thus ?thesis using M3 [of y] Jp [of y] y by (intro far_clear) (auto simp: F_def)
    qed
  qed
  have n1: "NEXT_BLKP s1 bp = n"
    by (simp add: NEXT_BLKP_def WSIZE_def GET_SIZE_def GET_def a1 n_def)
  define s2 where "s2 = remove_free s1 n"
  have fl2: "free_list s2 (remove1 n (remove1 p xs))"
    unfolding s2_def using fl1 nX1 by (rule remove_free_list)
  have F2: "free_listp s2 = F" unfolding s2_def using remove_free_fields(1) [OF fl1 nX1] F1 by simp
  have sepB: "\<forall>y \<in> set (free_listp s1 # remove1 p xs). y \<noteq> n \<longrightarrow> tot \<le> y - p \<and> 32 \<le> p - y"
    using M3 Jp d Fp by (auto simp: F1)
  have inB: "(bp - 16) - (p - 16) \<le> tot + 8" "(p - 16) - (p - 16) \<le> tot + 8"
    "(p + tot - 8) - (p - 16) \<le> tot + 8"
    unfolding e using q3 by simp_all
  have b2: "mem s2 (bp - 16) = mem s1 (bp - 16)" unfolding s2_def
    using fl1 nX1 sepB t32(2) inB(1) by (rule remove_free_region_frame)
  have b3: "mem s2 (p - 16) = mem s1 (p - 16)" unfolding s2_def
    using fl1 nX1 sepB t32(2) inB(2) by (rule remove_free_region_frame)
  have b4: "mem s2 (p + tot - 8) = mem s1 (p + tot - 8)" unfolding s2_def
    using fl1 nX1 sepB t32(2) inB(3) by (rule remove_free_region_frame)
  have p2: "PREV_BLKP s2 bp = p"
    by (simp add: PREV_BLKP_def DSIZE_def WSIZE_def GET_SIZE_def GET_def b2 a2 p_def)
  have sep1: "\<forall>y \<in> set (free_listp s2 # remove1 n (remove1 p xs)). tot \<le> y - p \<and> 32 \<le> p - y"
    using M3 Jp d Fp Fn by (auto simp: F2)
  define s' where "s' = add_free (PUT (PUT s2 (HDRP p) (PACK tot 0))
                  (FTRP (PUT s2 (HDRP p) (PACK tot 0)) p) (PACK tot 0)) p"
  note mb = merge_block [OF fl2 sep1 ap at t32(2), folded s'_def]
  have c: "coalesce s bp = (p, s')"
    using pa na nft p2 n1
    unfolding s'_def s2_def s1_def p_def n_def tot_def
    by (simp add: coalesce_def Let_def ftp) (simp add: DSIZE_def WSIZE_def)
  have "NEXT_BLKP s n = n + nsz" by (simp add: NEXT_BLKP_def WSIZE_def nsz')
  hence nx: "HDRP (NEXT_BLKP s (NEXT_BLKP s bp)) = p + tot - 8"
    unfolding n_def [symmetric] by (simp add: h n0 p0 tot)
  have "GET_ALLOC s' (p - DSIZE) \<noteq> 0"
    using pp by (simp add: GET_ALLOC_def GET_def DSIZE_def WSIZE_def mb(5) b3 a3 p_def [symmetric])
  moreover have "GET_ALLOC s' (HDRP (NEXT_BLKP s' p)) \<noteq> 0"
    using nn unfolding nx by (simp add: GET_ALLOC_def GET_def mb(4) h mb(6) b4 a4)
  ultimately show ?thesis using c mb(1-3) by (auto simp: p_def n_def)
qed

section \<open>The four cases of coalesce\<close>

text \<open>Claim C8. Let \<open>bp\<close> be a block that has just been marked free (header and footer
  \<open>(size, 0)\<close>, as \<^verbatim>\<open>mm_free\<close> and \<^verbatim>\<open>extend_heap\<close> write them) and is not in the free
  list, on a heap whose free list is well formed, where the blocks of \<open>bp\<close>, of the
  sentinel and of the list nodes do not overlap, the footer before \<open>bp\<close> carries the size
  of the previous block, and a physical neighbour whose allocated bit is clear is a node
  of the free list with an allocated block on its far side (and, for the next block, a
  footer that carries its size). Then \<^verbatim>\<open>coalesce\<close> reads the allocated bit in the footer
  of the previous block and in the header of the next block, and in each of the four
  cases it returns the block \<open>r\<close> that starts at the previous block if that one was free
  and at \<open>bp\<close> otherwise; header and footer of \<open>r\<close> both hold \<open>(tot, 0)\<close>, where
  \<open>tot\<close> is the size of \<open>bp\<close> plus the sizes of the free neighbours; the free list is
  \<open>r\<close> followed by the old list without the free neighbours, so \<open>r\<close> is in it exactly
  once and the merged neighbours are no longer in it; and the footer before \<open>r\<close> and the
  header after \<open>r\<close> both have the allocated bit set.\<close>

theorem coalesce_merges_neighbours:
  assumes fl: "free_list s xs"
    and abp: "aligned bp" and nb: "bp \<notin> set (free_listp s # xs)"
    and hd0: "GET s (HDRP bp) = PACK (GET_SIZE s (HDRP bp)) 0"
    and ft0: "GET s (FTRP s bp) = GET s (HDRP bp)"
    and dj: "disjoint_blocks s (insert bp (set (free_listp s # xs)))"
    and pv: "GET_SIZE s (HDRP (PREV_BLKP s bp)) = GET_SIZE s (bp - DSIZE)"
    and pf: "GET_ALLOC s (bp - DSIZE) = 0 \<Longrightarrow>
               PREV_BLKP s bp \<in> set xs \<and> GET_ALLOC s (PREV_BLKP s bp - DSIZE) \<noteq> 0"
    and nf: "GET_ALLOC s (HDRP (NEXT_BLKP s bp)) = 0 \<Longrightarrow>
               NEXT_BLKP s bp \<in> set xs \<and>
               GET_SIZE s (FTRP s (NEXT_BLKP s bp)) = GET_SIZE s (HDRP (NEXT_BLKP s bp)) \<and>
               GET_ALLOC s (HDRP (NEXT_BLKP s (NEXT_BLKP s bp))) \<noteq> 0"
  shows "let p = PREV_BLKP s bp; n = NEXT_BLKP s bp;
             pfree = (GET_ALLOC s (FTRP s p) = 0); nfree = (GET_ALLOC s (HDRP n) = 0);
             tot = GET_SIZE s (HDRP bp) + (if pfree then GET_SIZE s (HDRP p) else 0)
                     + (if nfree then GET_SIZE s (HDRP n) else 0);
             (r, s') = coalesce s bp
         in r = (if pfree then p else bp) \<and>
            GET s' (HDRP r) = PACK tot 0 \<and> GET s' (FTRP s' r) = PACK tot 0 \<and>
            free_list s' (r # filter (\<lambda>x. \<not> (pfree \<and> x = p) \<and> \<not> (nfree \<and> x = n)) xs) \<and>
            GET_ALLOC s' (r - DSIZE) \<noteq> 0 \<and> GET_ALLOC s' (HDRP (NEXT_BLKP s' r)) \<noteq> 0"
proof -
  have ftp: "FTRP s (PREV_BLKP s bp) = bp - DSIZE"
    using FTRP_PREV [OF pv] by (simp add: DSIZE_def WSIZE_def)
  have d: "distinct xs" using fl by (simp add: free_list_def)
  consider (aa) "GET_ALLOC s (bp - DSIZE) \<noteq> 0" "GET_ALLOC s (HDRP (NEXT_BLKP s bp)) \<noteq> 0"
    | (af) "GET_ALLOC s (bp - DSIZE) \<noteq> 0" "GET_ALLOC s (HDRP (NEXT_BLKP s bp)) = 0"
    | (fa) "GET_ALLOC s (bp - DSIZE) = 0" "GET_ALLOC s (HDRP (NEXT_BLKP s bp)) \<noteq> 0"
    | (ff) "GET_ALLOC s (bp - DSIZE) = 0" "GET_ALLOC s (HDRP (NEXT_BLKP s bp)) = 0"
    by blast
  then show ?thesis
  proof cases
    case aa
    note c = coalesce_case1 [OF fl abp hd0 ft0 dj nb pv aa]
    show ?thesis using aa c(2-6) unfolding Let_def ftp c(1) by simp
  next
    case af
    from coalesce_case2 [OF fl abp dj nb pv af] nf [OF af(2)]
    obtain s' where c: "coalesce s bp = (bp, s')"
      "GET s' (HDRP bp) = PACK (GET_SIZE s (HDRP bp) + GET_SIZE s (HDRP (NEXT_BLKP s bp))) 0"
      "GET s' (FTRP s' bp) = PACK (GET_SIZE s (HDRP bp) + GET_SIZE s (HDRP (NEXT_BLKP s bp))) 0"
      "free_list s' (bp # remove1 (NEXT_BLKP s bp) xs)"
      "GET_ALLOC s' (bp - DSIZE) \<noteq> 0" "GET_ALLOC s' (HDRP (NEXT_BLKP s' bp)) \<noteq> 0"
      by blast
    show ?thesis using af c(2-6) unfolding Let_def ftp c(1)
      by (simp add: filter_neq_remove1 [OF d])
  next
    case fa
    from coalesce_case3 [OF fl abp dj nb pv fa] pf [OF fa(1)]
    obtain s' where c: "coalesce s bp = (PREV_BLKP s bp, s')"
      "GET s' (HDRP (PREV_BLKP s bp)) = PACK (GET_SIZE s (HDRP bp) + GET_SIZE s (HDRP (PREV_BLKP s bp))) 0"
      "GET s' (FTRP s' (PREV_BLKP s bp)) = PACK (GET_SIZE s (HDRP bp) + GET_SIZE s (HDRP (PREV_BLKP s bp))) 0"
      "free_list s' (PREV_BLKP s bp # remove1 (PREV_BLKP s bp) xs)"
      "GET_ALLOC s' (PREV_BLKP s bp - DSIZE) \<noteq> 0"
      "GET_ALLOC s' (HDRP (NEXT_BLKP s' (PREV_BLKP s bp))) \<noteq> 0"
      by blast
    show ?thesis using fa c(2-6) unfolding Let_def ftp c(1)
      by (simp add: filter_neq_remove1 [OF d])
  next
    case ff
    have dp: "distinct (remove1 (PREV_BLKP s bp) xs)" using d by simp
    have fe: "filter (\<lambda>x. x \<noteq> PREV_BLKP s bp \<and> x \<noteq> NEXT_BLKP s bp) xs =
          remove1 (NEXT_BLKP s bp) (remove1 (PREV_BLKP s bp) xs)"
    proof -
      have "filter (\<lambda>x. x \<noteq> PREV_BLKP s bp \<and> x \<noteq> NEXT_BLKP s bp) xs =
          filter (\<lambda>x. x \<noteq> NEXT_BLKP s bp) (filter (\<lambda>x. x \<noteq> PREV_BLKP s bp) xs)"
        by simp
      also have "\<dots> = filter (\<lambda>x. x \<noteq> NEXT_BLKP s bp) (remove1 (PREV_BLKP s bp) xs)"
        by (simp only: filter_neq_remove1 [OF d])
      also have "\<dots> = remove1 (NEXT_BLKP s bp) (remove1 (PREV_BLKP s bp) xs)"
        by (rule filter_neq_remove1 [OF dp])
      finally show ?thesis .
    qed
    from coalesce_case4 [OF fl abp dj nb pv ff] pf [OF ff(1)] nf [OF ff(2)]
    obtain s' where c: "coalesce s bp = (PREV_BLKP s bp, s')"
      "GET s' (HDRP (PREV_BLKP s bp)) = PACK (GET_SIZE s (HDRP bp) +
          (GET_SIZE s (HDRP (PREV_BLKP s bp)) + GET_SIZE s (HDRP (NEXT_BLKP s bp)))) 0"
      "GET s' (FTRP s' (PREV_BLKP s bp)) = PACK (GET_SIZE s (HDRP bp) +
          (GET_SIZE s (HDRP (PREV_BLKP s bp)) + GET_SIZE s (HDRP (NEXT_BLKP s bp)))) 0"
      "free_list s' (PREV_BLKP s bp # remove1 (NEXT_BLKP s bp) (remove1 (PREV_BLKP s bp) xs))"
      "GET_ALLOC s' (PREV_BLKP s bp - DSIZE) \<noteq> 0"
      "GET_ALLOC s' (HDRP (NEXT_BLKP s' (PREV_BLKP s bp))) \<noteq> 0"
      by blast
    show ?thesis using ff c(2-6) unfolding Let_def ftp c(1)
      by (simp add: fe add.assoc)
  qed
qed

lemma heap_two_marked_eq:
  "heap_two_marked = \<lparr>mem = (\<lambda>_. 0)(65544 := 17, 65552 := 17, 65560 := 33, 65568 := 65760,
       65584 := 33, 65680 := 65568, 65688 := 65568, 65752 := 3936, 65768 := 65568,
       69680 := 3936, 69688 := 1, 65592 := 80, 65664 := 80, 65760 := 65600, 65608 := 65760,
       65600 := 65568, 65576 := 65600, 65672 := 80, 65744 := 80),
     mem_brk = 0x11040, mem_max_addr = 0x20000, heap_listp = 0x10010, free_listp = 0x10020\<rparr>"
  unfolding heap_two_marked_def heap_two_freed_def
  by (simp add: heap_two_eq mm_defs Let_def
      cong: let_weak_cong prod.case_cong_weak bind_weak_cong)

theorem coalesce_merges_neighbours_witness:
  "free_list heap_two_marked [0x10040, 0x100E0] \<and>
   GET heap_two_marked (HDRP 0x10090) = PACK 80 0 \<and>
   PREV_BLKP heap_two_marked 0x10090 = 0x10040 \<and>
   NEXT_BLKP heap_two_marked 0x10090 = 0x100E0 \<and>
   GET_ALLOC heap_two_marked (FTRP heap_two_marked 0x10040) = 0 \<and>
   GET_ALLOC heap_two_marked (HDRP 0x100E0) = 0 \<and>
   fst (coalesce heap_two_marked 0x10090) = 0x10040 \<and>
   GET (snd (coalesce heap_two_marked 0x10090)) (HDRP 0x10040) = PACK 4096 0 \<and>
   GET (snd (coalesce heap_two_marked 0x10090))
       (FTRP (snd (coalesce heap_two_marked 0x10090)) 0x10040) = PACK 4096 0 \<and>
   free_list (snd (coalesce heap_two_marked 0x10090)) [0x10040]"
proof -
  note ev = heap_two_marked_eq GET_def GET_SIZE_def GET_ALLOC_def HDRP_def FTRP_def
    NEXT_BLKP_def PREV_BLKP_def PACK_def WSIZE_def DSIZE_def
  have fl: "free_list heap_two_marked [0x10040, 0x100E0]"
    by (simp add: free_list_def heap_two_marked_eq fb_next_def fb_prev_def GET_def WSIZE_def
        aligned_def DSIZE_def)
  have abp: "aligned 0x10090" by (simp add: aligned_def DSIZE_def WSIZE_def)
  have nb: "0x10090 \<notin> set (free_listp heap_two_marked # [0x10040, 0x100E0])"
    by (simp add: heap_two_marked_eq)
  have v: "GET heap_two_marked (HDRP 0x10090) = PACK 80 0"
    "PREV_BLKP heap_two_marked 0x10090 = 0x10040"
    "NEXT_BLKP heap_two_marked 0x10090 = 0x100E0"
    "GET_ALLOC heap_two_marked (FTRP heap_two_marked 0x10040) = 0"
    "GET_ALLOC heap_two_marked (HDRP 0x100E0) = 0"
    "GET_SIZE heap_two_marked (HDRP 0x10090) = 80"
    "GET_SIZE heap_two_marked (HDRP 0x10040) = 80"
    "GET_SIZE heap_two_marked (HDRP 0x100E0) = 3936"
    by (simp_all add: ev)
  have hd0: "GET heap_two_marked (HDRP 0x10090) = PACK (GET_SIZE heap_two_marked (HDRP 0x10090)) 0"
    by (simp add: ev)
  have ft0: "GET heap_two_marked (FTRP heap_two_marked 0x10090) = GET heap_two_marked (HDRP 0x10090)"
    by (simp add: ev)
  have dj: "disjoint_blocks heap_two_marked
      (insert 0x10090 (set (free_listp heap_two_marked # [0x10040, 0x100E0])))"
    by (simp add: disjoint_blocks_def ev)
  have pv: "GET_SIZE heap_two_marked (HDRP (PREV_BLKP heap_two_marked 0x10090)) =
      GET_SIZE heap_two_marked (0x10090 - DSIZE)"
    by (simp add: ev)
  have pf: "PREV_BLKP heap_two_marked 0x10090 \<in> set [0x10040, 0x100E0] \<and>
      GET_ALLOC heap_two_marked (PREV_BLKP heap_two_marked 0x10090 - DSIZE) \<noteq> 0"
    by (simp add: ev)
  have nf: "NEXT_BLKP heap_two_marked 0x10090 \<in> set [0x10040, 0x100E0] \<and>
      GET_SIZE heap_two_marked (FTRP heap_two_marked (NEXT_BLKP heap_two_marked 0x10090)) =
      GET_SIZE heap_two_marked (HDRP (NEXT_BLKP heap_two_marked 0x10090)) \<and>
      GET_ALLOC heap_two_marked
        (HDRP (NEXT_BLKP heap_two_marked (NEXT_BLKP heap_two_marked 0x10090))) \<noteq> 0"
    by (simp add: ev)
  show ?thesis
    using coalesce_merges_neighbours [OF fl abp nb hd0 ft0 dj pv pf nf] fl
    by (auto simp: v Let_def split_beta)
qed

section \<open>Extending the heap\<close>

lemma ext_sep:
  fixes y :: word64
  assumes "y \<le> e" "c \<le> e - y" "32 \<le> c" "e \<le> e + E"
  shows "E \<le> y - e \<and> 32 \<le> e - y"
  using assms by uint_arith

lemma ext_clear:
  fixes y :: word64
  assumes "y \<le> e" "c \<le> e - y" "32 \<le> c" "e \<le> e + E" "32 \<le> E"
  shows "y \<noteq> e - 8 \<and> y + 8 \<noteq> e - 8 \<and> y - 8 \<noteq> e - 8"
    and "y \<noteq> e + E - 16 \<and> y + 8 \<noteq> e + E - 16 \<and> y - 8 \<noteq> e + E - 16"
    and "y \<noteq> e + E - 8 \<and> y + 8 \<noteq> e + E - 8 \<and> y - 8 \<noteq> e + E - 8"
  using assms by uint_arith+

lemma ext_self1:
  fixes e :: word64
  assumes "e \<le> e + E" "32 \<le> E" "32 \<le> e"
  shows "e - 8 \<noteq> e + E - 16" 
  using assms by uint_arith

lemma ext_self2:
  fixes e :: word64
  assumes "e \<le> e + E" "32 \<le> E" "32 \<le> e"
  shows "e - 16 \<noteq> e + E - 8"
  using assms by uint_arith

lemma ext_prev1:
  fixes e :: word64
  assumes "16 \<le> p" "p < e" "e \<le> e + E" "32 \<le> E"
  shows "p - 8 \<noteq> e - 8 \<and> p - 8 \<noteq> e + E - 16 \<and> p - 8 \<noteq> e + E - 8"
  using assms by uint_arith

lemma ext_prev2:
  fixes e :: word64
  assumes "16 \<le> p" "p < e" "e \<le> e + E" "32 \<le> E"
  shows "p - 16 \<noteq> e - 8 \<and> p - 16 \<noteq> e + E - 16 \<and> p - 16 \<noteq> e + E - 8"
  using assms by uint_arith

lemma ext_merge:
  fixes y :: word64
  assumes "psz \<le> y - (e - psz)" "32 \<le> (e - psz) - y" "y \<le> e" "c \<le> e - y" "32 \<le> c" "e \<le> e + E"
    "psz \<le> e"
  shows "E + psz \<le> y - (e - psz)"
  using assms by uint_arith

lemma sbrk_ok:
  fixes e E M :: word64
  assumes "\<not> unat e + unat E > unat M"
  shows "e \<le> e + E"
  using assms by unat_arith

lemma words_even:
  fixes E :: word64
  assumes "unat E mod 16 = 0"
  shows "(E div 8) mod 2 = 0"
proof -
  have "unat ((E div 8) mod 2) = (unat E div 8) mod 2" by (simp add: unat_mod unat_div)
  also have "\<dots> = 0" using assms by presburger
  finally show ?thesis by (simp add: unat_eq_0)
qed

lemma words_bytes:
  fixes E :: word64
  assumes "unat E mod 16 = 0"
  shows "(E div 8) * 8 = E"
proof -
  have a: "unat E div 8 * 8 = unat E" using assms by presburger
  have b: "unat E < 2 ^ 64" using unsigned_less [of E] by simp
  have c: "unat (E div 8) = unat E div 8" by (simp add: unat_div)
  have "unat ((E div 8) * 8) = (unat (E div 8) * 8) mod 2 ^ 64"
    by (simp add: unat_word_ariths)
  also have "\<dots> = unat E" unfolding c a using b by simp
  finally show ?thesis by (simp add: word_unat_eq_iff)
qed

lemma brk_ge32:
  fixes y :: word64
  assumes "y \<le> e" "c \<le> e - y" "32 \<le> c"
  shows "32 \<le> e"
  using assms by uint_arith

lemma sum_ge:
  fixes e :: word64
  assumes "p < e" "e \<le> e + E" "32 \<le> E"
  shows "E \<le> E + (e - p) \<and> 32 \<le> E + (e - p)"
  using assms by uint_arith

lemma brk_not_m1:
  fixes e E M :: word64
  assumes "\<not> unat e + unat E > unat M" "32 \<le> E"
  shows "e \<noteq> - 1"
proof
  assume "e = - 1"
  then have "unat e = 18446744073709551615"
    by (simp add: unsigned_minus_1_eq_mask mask_eq_exp_minus_1)
  moreover have "unat M < 2 ^ 64" using unsigned_less [of M] by simp
  moreover have "32 \<le> unat E" using assms(2) by (simp add: word_le_nat_alt)
  ultimately show False using assms(1) by simp
qed

text \<open>The state in which \<^verbatim>\<open>extend_heap\<close> calls \<^verbatim>\<open>coalesce\<close>.\<close>

lemma extend_heap_state:
  assumes aE: "aligned E" and E32: "32 \<le> E" and e32: "32 \<le> mem_brk s"
    and ok: "\<not> unat (mem_brk s) + unat E > unat (mem_max_addr s)"
  defines "e \<equiv> mem_brk s"
  defines "s4 \<equiv> s\<lparr>mem := (mem s)(e - 8 := PACK E 0, e + E - 16 := PACK E 0, e + E - 8 := PACK 0 1),
                    mem_brk := e + E\<rparr>"
  shows "extend_heap s (E div WSIZE) = coalesce s4 e"
proof -
  have nw: "e \<le> e + E" unfolding e_def using ok by (rule sbrk_ok)
  have ne: "e \<noteq> - 1" unfolding e_def using ok E32 by (rule brk_not_m1)
  have u: "unat E mod 16 = 0" using aE by (simp add: aligned_unat)
  have w: "(E div 8) mod 2 = 0" "(E div 8) * 8 = E" using u by (rule words_even, rule words_bytes)
  have d: "e - 8 \<noteq> e + E - 16" using nw E32 e32 unfolding e_def by (intro ext_self1)
  define s1 where "s1 = s\<lparr>mem_brk := e + E\<rparr>"
  have sb: "mem_sbrk s E = (e, s1)" using ok by (simp add: mem_sbrk_def e_def s1_def)
  define s2 where "s2 = PUT s1 (e - 8) (PACK E 0)"
  have f2: "FTRP s2 e = e + E - 16"
    by (simp add: FTRP_def HDRP_def WSIZE_def DSIZE_def s2_def GET_SIZE_PUT_PACK(2) [OF aE])
  define s3 where "s3 = PUT s2 (e + E - 16) (PACK E 0)"
  have "mem s3 (e - 8) = PACK E 0" using d by (simp add: s3_def s2_def PUT_def)
  then have "GET_SIZE s3 (e - 8) = E"
    using aE by (simp add: GET_SIZE_def GET_def PACK_def size_PACK_0 DSIZE_def WSIZE_def)
  then have n3: "HDRP (NEXT_BLKP s3 e) = e + E - 8"
    by (simp add: NEXT_BLKP_def HDRP_def WSIZE_def)
  have s4: "PUT s3 (e + E - 8) (PACK 0 1) = s4"
    by (simp add: s4_def s3_def s2_def s1_def PUT_def)
  have h: "HDRP e = e - 8" by (simp add: HDRP_def WSIZE_def)
  show ?thesis
    unfolding extend_heap_def
    by (simp add: w WSIZE_def sb ne Let_def del: PUT_simps)
      (simp only: h s2_def [symmetric] f2 s3_def [symmetric] n3 s4)
qed

lemma extend_heap_block:
  assumes fl: "free_list s xs"
    and dj: "disjoint_blocks s (set (free_listp s # xs))"
    and below: "\<forall>y \<in> set (free_listp s # xs).
                  y \<le> mem_brk s \<and> GET_SIZE s (HDRP y) \<le> mem_brk s - y"
    and ae: "aligned (mem_brk s)"
    and aE: "aligned E" and E32: "32 \<le> E"
    and ok: "\<not> unat (mem_brk s) + unat E > unat (mem_max_addr s)"
    and pb: "DSIZE \<le> PREV_BLKP s (mem_brk s)" "PREV_BLKP s (mem_brk s) < mem_brk s"
    and pv: "GET_SIZE s (HDRP (PREV_BLKP s (mem_brk s))) = GET_SIZE s (mem_brk s - DSIZE)"
    and pf: "GET_ALLOC s (mem_brk s - DSIZE) = 0 \<Longrightarrow>
               PREV_BLKP s (mem_brk s) \<in> set xs \<and>
               GET_ALLOC s (PREV_BLKP s (mem_brk s) - DSIZE) \<noteq> 0"
  defines "r \<equiv> (if GET_ALLOC s (mem_brk s - DSIZE) = 0 then PREV_BLKP s (mem_brk s) else mem_brk s)"
  defines "c \<equiv> E + (if GET_ALLOC s (mem_brk s - DSIZE) = 0 then GET_SIZE s (mem_brk s - DSIZE) else 0)"
  shows "\<exists>s' ys. extend_heap s (E div WSIZE) = (r, s') \<and> free_list s' ys \<and> r \<in> set ys \<and>
           GET s' (HDRP r) = PACK c 0 \<and> E \<le> c \<and> r \<noteq> NULL \<and>
           (\<forall>y \<in> set (free_listp s' # ys). y = r \<or> (c \<le> y - r \<and> 32 \<le> r - y))"
proof -
  define e where "e = mem_brk s"
  define F where "F = free_listp s"
  define p where "p = PREV_BLKP s e"
  define psz where "psz = GET_SIZE s (e - 16)"
  let ?X = "set (F # xs)"
  have h: "HDRP x = x - 8" for x by (simp add: HDRP_def WSIZE_def)
  have nw: "e \<le> e + E" unfolding e_def using ok by (rule sbrk_ok)
  have yb: "y \<le> e" "GET_SIZE s (y - 8) \<le> e - y" "32 \<le> GET_SIZE s (y - 8)" if "y \<in> ?X" for y
    using below dj that by (auto simp: e_def F_def h disjoint_blocks_def DSIZE_def WSIZE_def)
  have e32: "32 \<le> e" using yb [of F] by (intro brk_ge32 [of F e "GET_SIZE s (F - 8)"]) simp_all
  define s4 where "s4 = s\<lparr>mem := (mem s)(e - 8 := PACK E 0, e + E - 16 := PACK E 0,
      e + E - 8 := PACK 0 1), mem_brk := e + E\<rparr>"
  have ex: "extend_heap s (E div WSIZE) = coalesce s4 e"
    unfolding s4_def e_def using aE E32 e32 [unfolded e_def] ok by (rule extend_heap_state)
  have F4: "free_listp s4 = F" by (simp add: s4_def F_def)
  have clr: "y \<noteq> e - 8 \<and> y + 8 \<noteq> e - 8 \<and> y - 8 \<noteq> e - 8"
      "y \<noteq> e + E - 16 \<and> y + 8 \<noteq> e + E - 16 \<and> y - 8 \<noteq> e + E - 16"
      "y \<noteq> e + E - 8 \<and> y + 8 \<noteq> e + E - 8 \<and> y - 8 \<noteq> e + E - 8" if "y \<in> ?X" for y
    by (rule ext_clear [OF yb [OF that] nw E32])+
  have sepE: "E \<le> y - e \<and> 32 \<le> e - y" if "y \<in> ?X" for y
    using ext_sep [OF yb [OF that] nw] .
  have m4: "mem s4 a = mem s a" if "a \<noteq> e - 8" "a \<noteq> e + E - 16" "a \<noteq> e + E - 8" for a
    using that by (simp add: s4_def)
  have d: "e - 8 \<noteq> e + E - 16" "e - 16 \<noteq> e + E - 8" using ext_self1 [OF nw E32 e32] ext_self2 [OF nw E32 e32] by blast+
  have d': "e + E - 16 \<noteq> e + E - 8" "e - 16 \<noteq> e - 8" "e - 8 \<noteq> e + E - 8" "e - 16 \<noteq> e + E - 16"
    using E32 by auto
  have g4: "mem s4 (e - 8) = PACK E 0" "mem s4 (e + E - 16) = PACK E 0" "mem s4 (e + E - 8) = PACK 0 1"
    using d d' by (simp_all add: s4_def)
  have fl4: "free_list s4 xs"
    using fl F4 [unfolded F_def]
  proof (rule free_list_frame)
    fix x assume "x \<in> set (free_listp s # xs)"
    then have "x \<in> ?X" by (simp add: F_def)
    from clr [OF this] show "mem s4 x = mem s x \<and> mem s4 (x + 8) = mem s (x + 8)"
      by (intro conjI m4) blast+
  qed
  have sz4: "GET_SIZE s4 (y - 8) = GET_SIZE s (y - 8)" if "y \<in> ?X" for y
  proof -
    have "mem s4 (y - 8) = mem s (y - 8)" using clr [OF that] by (intro m4) blast+
    then show ?thesis by (simp add: GET_SIZE_def GET_def)
  qed
  have szE: "GET_SIZE s4 (e - 8) = E"
    using aE by (simp add: GET_SIZE_def GET_def g4 PACK_def size_PACK_0 DSIZE_def WSIZE_def)
  have hd0: "GET s4 (HDRP e) = PACK (GET_SIZE s4 (HDRP e)) 0" by (simp add: h szE GET_def g4)
  have "FTRP s4 e = e + E - 16" by (simp add: FTRP_def h szE DSIZE_def WSIZE_def)
  then have ft0: "GET s4 (FTRP s4 e) = GET s4 (HDRP e)" by (simp add: GET_def h g4)
  have nb: "e \<notin> set (free_listp s4 # xs)"
  proof
    assume "e \<in> set (free_listp s4 # xs)"
    then have "e \<in> ?X" by (simp add: F4)
    from sepE [OF this] show False by simp
  qed
  have dj4: "disjoint_blocks s4 (insert e (set (free_listp s4 # xs)))"
    unfolding disjoint_blocks_def F4
  proof (intro ballI conjI impI)
    fix x assume x: "x \<in> insert e ?X"
    show "2 * DSIZE \<le> GET_SIZE s4 (HDRP x)"
      using x yb(3) E32 by (auto simp: h szE sz4 DSIZE_def WSIZE_def)
    fix y assume y: "y \<in> insert e ?X" "x \<noteq> y"
    show "GET_SIZE s4 (HDRP x) \<le> y - x"
    proof (cases "x = e")
      case True
      with y sepE [of y] show ?thesis by (auto simp: h szE)
    next
      case False
      with x have xX: "x \<in> ?X" by simp
      show ?thesis
      proof (cases "y = e")
        case True
        with yb(2) [OF xX] show ?thesis by (simp add: h sz4 [OF xX])
      next
        case False
        with y have "y \<in> ?X" by simp
        with dj xX y(2) show ?thesis by (auto simp: disjoint_blocks_def h sz4 [OF xX] F_def)
      qed
    qed
  qed
  have pb': "16 \<le> p" "p < e" using pb by (simp_all add: p_def e_def DSIZE_def WSIZE_def)
  have p0: "p = e - psz" by (simp add: p_def psz_def PREV_BLKP_def DSIZE_def WSIZE_def)
  have ph: "p - 8 \<noteq> e - 8 \<and> p - 8 \<noteq> e + E - 16 \<and> p - 8 \<noteq> e + E - 8"
    "p - 16 \<noteq> e - 8 \<and> p - 16 \<noteq> e + E - 16 \<and> p - 16 \<noteq> e + E - 8"
    using ext_prev1 [OF pb' nw E32] ext_prev2 [OF pb' nw E32] by blast+
  have m16: "mem s4 (e - 16) = mem s (e - 16)" using d d' by (intro m4) auto
  have p4: "PREV_BLKP s4 e = p"
    by (simp add: PREV_BLKP_def p_def GET_SIZE_def GET_def DSIZE_def WSIZE_def m16)
  have pv4: "GET_SIZE s4 (HDRP (PREV_BLKP s4 e)) = GET_SIZE s4 (e - DSIZE)"
    using pv ph(1) by (simp add: p4 h GET_SIZE_def GET_def DSIZE_def WSIZE_def m16 m4
        p_def [symmetric] e_def [symmetric])
  have na: "GET_ALLOC s4 (HDRP (NEXT_BLKP s4 e)) \<noteq> 0"
    by (simp add: NEXT_BLKP_def WSIZE_def szE h GET_ALLOC_def GET_def g4 PACK_def)
  have pa4: "GET_ALLOC s4 (e - DSIZE) = GET_ALLOC s (e - DSIZE)"
    by (simp add: GET_ALLOC_def GET_def DSIZE_def WSIZE_def m16)
  have enull: "e \<noteq> NULL" using e32 by (auto simp: NULL_def)
  show ?thesis
  proof (cases "GET_ALLOC s (e - DSIZE) = 0")
    case False
    then have pa: "GET_ALLOC s4 (e - DSIZE) \<noteq> 0" by (simp add: pa4)
    note c1 = coalesce_case1 [OF fl4 ae [folded e_def] hd0 ft0 dj4 nb pv4 pa na]
    have r: "r = e" "c = E" using False by (simp_all add: r_def c_def e_def)
    have "free_listp (add_free s4 e) = F" using add_free_fields(1) [OF fl4] F4 by simp
    then have sepF: "\<forall>y \<in> set (free_listp (add_free s4 e) # e # xs).
        y = e \<or> (E \<le> y - e \<and> 32 \<le> e - y)"
      using sepE by simp
    show ?thesis
      unfolding r ex
      by (rule exI [of _ "add_free s4 e"], rule exI [of _ "e # xs"])
        (use c1(1,2,4) enull sepF in \<open>simp add: h szE\<close>)
  next
    case True
    then have pa: "GET_ALLOC s4 (e - DSIZE) = 0" by (simp add: pa4)
    from pf True have pin: "p \<in> set xs" and pp: "GET_ALLOC s (p - DSIZE) \<noteq> 0"
      by (simp_all add: e_def p_def)
    have pp4: "GET_ALLOC s4 (PREV_BLKP s4 e - DSIZE) \<noteq> 0"
      using pp ph(2) by (simp add: p4 GET_ALLOC_def GET_def DSIZE_def WSIZE_def m4)
    have pin4: "PREV_BLKP s4 e \<in> set xs" using pin by (simp add: p4)
    have pX: "p \<in> ?X" using pin by simp
    have "GET_SIZE s (p - 8) = psz"
      using pv by (simp add: h p_def psz_def e_def DSIZE_def WSIZE_def)
    then have pz: "GET_SIZE s4 (p - 8) = psz" by (simp add: sz4 [OF pX])
    have r: "r = p" "c = E + psz" using True by (simp_all add: r_def c_def e_def p_def psz_def DSIZE_def WSIZE_def)
    from coalesce_case3 [OF fl4 ae [folded e_def] dj4 nb pv4 pa na pin4 pp4]
    obtain s' where c3: "coalesce s4 e = (p, s')" "GET s' (HDRP p) = PACK (E + psz) 0"
      "free_list s' (p # remove1 p xs)" "free_listp s' = F"
      by (auto simp: p4 h szE pz F4)
    have pe: "psz = e - p" by (simp add: p0)
    have cE: "E \<le> E + psz \<and> 32 \<le> E + psz" unfolding pe using pb'(2) nw E32 by (rule sum_ge)
    have psz_le: "psz \<le> e" unfolding pe using pb'(2) by uint_arith
    have sp: "y = p \<or> (E + psz \<le> y - p \<and> 32 \<le> p - y)" if "y \<in> ?X" for y
    proof (cases "y = p")
      case False
      have "GET_SIZE s (HDRP p) = psz" using pz by (simp add: h sz4 [OF pX])
      with disjoint_blocksD [OF dj, of p y] pX that False
      have a: "psz \<le> y - (e - psz)" "32 \<le> (e - psz) - y" by (auto simp: F_def p0)
      from ext_merge [OF a yb [OF that] nw psz_le] a(2) show ?thesis by (simp add: p0)
    qed simp
    have sepF: "\<forall>y \<in> set (free_listp s' # p # remove1 p xs).
        y = p \<or> (E + psz \<le> y - p \<and> 32 \<le> p - y)"
    proof
      fix y assume "y \<in> set (free_listp s' # p # remove1 p xs)"
      then have "y = p \<or> y \<in> ?X" using set_remove1_subset [of p xs] by (auto simp: c3(4))
      then show "y = p \<or> (E + psz \<le> y - p \<and> 32 \<le> p - y)" using sp by blast
    qed
    have pnull: "p \<noteq> NULL" using pb'(1) by (auto simp: NULL_def)
    show ?thesis
      unfolding r ex
      by (rule exI [of _ s'], rule exI [of _ "p # remove1 p xs"])
        (use c3(1-3) cE pnull sepF in simp)
  qed
qed

section \<open>Allocation sizing\<close>

lemma asize_spec_props: "32 \<le> asize_spec n" "asize_spec n mod 16 = 0"
  by (simp_all add: asize_spec_def round_up_def DSIZE_def WSIZE_def max_def)

lemma malloc_asize_value:
  assumes "unat sz + 31 < 2 ^ 64"
  shows "unat (malloc_asize sz) =
     (if sz = 448 then 528 else if sz = 112 then 144 else asize_spec (unat sz))"
proof -
  have "malloc_asize 448 = 528" "malloc_asize 112 = 144"
    by (simp_all add: malloc_asize_def DSIZE_def WSIZE_def)
  then show ?thesis using malloc_asize_formula [OF _ _ assms] by auto
qed

lemma malloc_asize_block:
  assumes "unat sz + 31 < 2 ^ 64"
  shows "aligned (malloc_asize sz)" "2 * DSIZE \<le> malloc_asize sz"
proof -
  have "unat (malloc_asize sz) mod 16 = 0 \<and> 32 \<le> unat (malloc_asize sz)"
    unfolding malloc_asize_value [OF assms] using asize_spec_props [of "unat sz"] by simp
  then show "aligned (malloc_asize sz)" "2 * DSIZE \<le> malloc_asize sz"
    by (simp_all add: aligned_unat word_le_nat_alt DSIZE_def WSIZE_def)
qed

lemma extendsize_block:
  assumes "aligned asize"
  shows "aligned (MAX_c asize CHUNKSIZE)" "32 \<le> MAX_c asize CHUNKSIZE" "asize \<le> MAX_c asize CHUNKSIZE"
  using assms by (auto simp: MAX_c_def CHUNKSIZE_def aligned_unat word_le_nat_alt word_less_nat_alt)

lemma place_header:
  assumes fl: "free_list s xs" and bp: "bp \<in> set xs"
    and sep: "\<forall>y \<in> set (free_listp s # xs). y = bp \<or> (GET_SIZE s (HDRP bp) \<le> y - bp \<and> 32 \<le> bp - y)"
    and al: "aligned asize" and lo: "2 * DSIZE \<le> asize" and le: "asize \<le> GET_SIZE s (HDRP bp)"
  shows "GET (place s bp asize) (HDRP bp) =
     PACK (if 3 * DSIZE \<le> GET_SIZE s (HDRP bp) - asize then asize else GET_SIZE s (HDRP bp)) 1"
proof (cases "3 * DSIZE \<le> GET_SIZE s (HDRP bp) - asize")
  case True
  with place_split_sep [OF fl bp sep al lo le True] show ?thesis by simp
next
  case False
  have "2 * DSIZE \<le> GET_SIZE s (HDRP bp)" using lo le by simp
  with place_whole_sep [OF fl bp sep this False] False show ?thesis by simp
qed

text \<open>Claim C3, as the specification states it: the adjusted size of \<^verbatim>\<open>mm_malloc\<close> is
  \<open>max(2 DSIZE, round_up(n + 2 WSIZE, 2 WSIZE))\<close> for every request \<open>n\<close>, the requests of
  448 and of 112 bytes included. The code sets the adjusted size of these two requests to
  528 and 144 where the formula gives 464 and 128, and on the freshly initialised heap
  the block returned for 448 bytes has size 528.\<close>

theorem malloc_hard_coded_sizes:
  "unat (malloc_asize 448) = 528 \<and> asize_spec (unat (448 :: word64)) = 464 \<and>
   unat (malloc_asize 112) = 144 \<and> asize_spec (unat (112 :: word64)) = 128 \<and>
   map_option (\<lambda>r. GET (snd r) (HDRP (fst r))) (mm_malloc heap_init 448) = Some (PACK 528 1)"
proof -
  have "map_option (\<lambda>r. GET (snd r) (HDRP (fst r))) (mm_malloc heap_init 448) = Some (PACK 528 1)"
    by (simp add: heap_init_eq find_fit_loop_num mm_defs Let_def
      cong: let_weak_cong prod.case_cong_weak bind_weak_cong)
  then show ?thesis
    by (simp add: malloc_asize_def asize_spec_def round_up_def DSIZE_def WSIZE_def)
qed

text \<open>Claim C3, amended. Let \<open>n\<close> be a non-zero request with \<open>n + 31 < 2^64\<close>, on a heap
  whose free list is well formed and holds non-null free blocks, whose sentinel is marked
  allocated, where the blocks of the list and of the sentinel do not overlap and end at
  or below the break, the break is aligned, the block that ends at the break starts at
  or above \<open>DSIZE\<close>, has a footer that carries the size in its header and, when it is
  free, is in the free list with an allocated block before it. Then the adjusted size
  \<open>asize\<close> of \<^verbatim>\<open>mm_malloc\<close> is \<open>max(2 DSIZE, round_up(n + 2 WSIZE, 2 WSIZE))\<close>, except
  that it is 528 for \<open>n = 448\<close> and 144 for \<open>n = 112\<close>; \<^verbatim>\<open>mm_malloc\<close> returns; when
  the free list has a block of size at least \<open>asize\<close> it returns the first such block;
  when it has none and the extender fails it returns \<^verbatim>\<open>NULL\<close> and leaves the heap as it
  was; when it has none and the extender succeeds it returns the block gained by growing
  the heap by \<open>max(asize, CHUNKSIZE)\<close> bytes, merged with the last block of the heap when
  that one was free. In both cases the returned block is marked allocated and its size is
  \<open>asize\<close> when the chosen block is larger than \<open>asize\<close> by at least \<open>3 DSIZE\<close> (it is
  split), and the size of the whole chosen block otherwise (it is not split).\<close>

theorem malloc_block_size:
  assumes nz: "sz \<noteq> 0" and nov: "unat sz + 31 < 2 ^ 64"
    and fl: "free_list s xs"
    and fr: "\<forall>x \<in> set xs. x \<noteq> NULL \<and> GET_ALLOC s (HDRP x) = 0"
    and sa: "GET_ALLOC s (HDRP (free_listp s)) \<noteq> 0"
    and dj: "disjoint_blocks s (set (free_listp s # xs))"
    and below: "\<forall>y \<in> set (free_listp s # xs).
                  y \<le> mem_brk s \<and> GET_SIZE s (HDRP y) \<le> mem_brk s - y"
    and ae: "aligned (mem_brk s)"
    and pb: "DSIZE \<le> PREV_BLKP s (mem_brk s)" "PREV_BLKP s (mem_brk s) < mem_brk s"
    and pv: "GET_SIZE s (HDRP (PREV_BLKP s (mem_brk s))) = GET_SIZE s (mem_brk s - DSIZE)"
    and pf: "GET_ALLOC s (mem_brk s - DSIZE) = 0 \<Longrightarrow>
               PREV_BLKP s (mem_brk s) \<in> set xs \<and>
               GET_ALLOC s (PREV_BLKP s (mem_brk s) - DSIZE) \<noteq> 0"
  shows "let asize = malloc_asize sz;
             ext = MAX_c asize CHUNKSIZE;
             last_free = (GET_ALLOC s (mem_brk s - DSIZE) = 0);
             csize = ext + (if last_free then GET_SIZE s (mem_brk s - DSIZE) else 0)
         in unat asize = (if sz = 448 then 528 else if sz = 112 then 144 else asize_spec (unat sz)) \<and>
            (case mm_malloc s sz of
               None \<Rightarrow> False
             | Some (bp, s') \<Rightarrow>
                 (case List.find (\<lambda>x. asize \<le> GET_SIZE s (HDRP x)) xs of
                    Some x \<Rightarrow>
                      bp = x \<and>
                      GET s' (HDRP bp) =
                        PACK (if 3 * DSIZE \<le> GET_SIZE s (HDRP x) - asize then asize
                              else GET_SIZE s (HDRP x)) 1
                  | None \<Rightarrow>
                      if unat (mem_max_addr s) < unat (mem_brk s) + unat ext
                      then bp = NULL \<and> s' = s
                      else bp = (if last_free then PREV_BLKP s (mem_brk s) else mem_brk s) \<and>
                           GET s' (HDRP bp) =
                             PACK (if 3 * DSIZE \<le> csize - asize then asize else csize) 1))"
proof -
  define asize where "asize = malloc_asize sz"
  define ext where "ext = MAX_c asize CHUNKSIZE"
  define c where "c = ext + (if GET_ALLOC s (mem_brk s - DSIZE) = 0
                             then GET_SIZE s (mem_brk s - DSIZE) else 0)"
  define r where "r = (if GET_ALLOC s (mem_brk s - DSIZE) = 0 then PREV_BLKP s (mem_brk s)
                       else mem_brk s)"
  have al: "aligned asize" and lo: "2 * DSIZE \<le> asize"
    unfolding asize_def using nov by (rule malloc_asize_block)+
  note E = extendsize_block [OF al, folded ext_def]
  have v: "unat asize = (if sz = 448 then 528 else if sz = 112 then 144 else asize_spec (unat sz))"
    unfolding asize_def using nov by (rule malloc_asize_value)
  have ff: "find_fit s asize =
      Some (case List.find (\<lambda>x. asize \<le> GET_SIZE s (HDRP x)) xs of Some x \<Rightarrow> x | None \<Rightarrow> NULL)"
    unfolding find_fit_def using fl fr sa by (intro find_fit_loop_chain) (simp_all add: free_list_def)
  have nz': "\<not> sz \<le> 0" using nz by simp
  have "case mm_malloc s sz of
               None \<Rightarrow> False
             | Some (bp, s') \<Rightarrow>
                 (case List.find (\<lambda>x. asize \<le> GET_SIZE s (HDRP x)) xs of
                    Some x \<Rightarrow>
                      bp = x \<and>
                      GET s' (HDRP bp) =
                        PACK (if 3 * DSIZE \<le> GET_SIZE s (HDRP x) - asize then asize
                              else GET_SIZE s (HDRP x)) 1
                  | None \<Rightarrow>
                      if unat (mem_max_addr s) < unat (mem_brk s) + unat ext
                      then bp = NULL \<and> s' = s
                      else bp = r \<and>
                           GET s' (HDRP bp) = PACK (if 3 * DSIZE \<le> c - asize then asize else c) 1)"
  proof (cases "List.find (\<lambda>x. asize \<le> GET_SIZE s (HDRP x)) xs")
    case (Some x)
    then have x: "x \<in> set xs" and le: "asize \<le> GET_SIZE s (HDRP x)"
      by (auto simp: find_Some_iff)
    have xn: "x \<noteq> NULL" using fr x by simp
    have sep: "\<forall>y \<in> set (free_listp s # xs). y = x \<or> (GET_SIZE s (HDRP x) \<le> y - x \<and> 32 \<le> x - y)"
      using disjoint_blocksD [OF dj, of x] x by simp
    have m: "mm_malloc s sz = Some (x, place s x asize)"
      using nz' xn by (simp add: mm_malloc_def Let_def asize_def [symmetric] ff Some)
    show ?thesis
      using place_header [OF fl x sep al lo le] by (simp add: m Some)
  next
    case None
    have f0: "find_fit s asize = Some NULL" using ff None by simp
    show ?thesis
    proof (cases "unat (mem_max_addr s) < unat (mem_brk s) + unat ext")
      case True
      have u: "unat ext mod 16 = 0" using E(1) by (simp add: aligned_unat)
      have w: "(ext div 8) mod 2 = 0" "(ext div 8) * 8 = ext"
        using u by (rule words_even, rule words_bytes)
      have "fst (mem_sbrk s (let w = MAX_c (malloc_asize sz) CHUNKSIZE div WSIZE
                          in if w mod 2 \<noteq> 0 then (w + 1) * WSIZE else w * WSIZE)) = - 1"
        using True by (simp add: Let_def asize_def [symmetric] ext_def [symmetric] WSIZE_def w
            mem_sbrk_def)
      with nz f0 [unfolded asize_def] have "mm_malloc s sz = Some (NULL, s)" by (rule malloc_oom)
      then show ?thesis using True by (simp add: None)
    next
      case False
      then have ok: "\<not> unat (mem_brk s) + unat ext > unat (mem_max_addr s)" by simp
      from extend_heap_block [OF fl dj below ae E(1) E(2) ok pb pv pf, folded r_def c_def]
      obtain s1 ys where x: "extend_heap s (ext div WSIZE) = (r, s1)" "free_list s1 ys"
        "r \<in> set ys" "GET s1 (HDRP r) = PACK c 0" "ext \<le> c" "r \<noteq> NULL"
        "\<forall>y \<in> set (free_listp s1 # ys). y = r \<or> (c \<le> y - r \<and> 32 \<le> r - y)"
        by blast
      have ac: "aligned c" unfolding c_def
        using E(1) by (auto intro!: aligned_add aligned_GET_SIZE aligned_num)
      have cs: "GET_SIZE s1 (HDRP r) = c"
        using ac by (simp add: GET_SIZE_def x(4) PACK_def size_PACK_0 DSIZE_def WSIZE_def)
      have le: "asize \<le> GET_SIZE s1 (HDRP r)" using E(3) x(5) by (simp add: cs)
      have m: "mm_malloc s sz = Some (r, place s1 r asize)"
        using nz' x(6) by (simp add: mm_malloc_def Let_def asize_def [symmetric] f0
            ext_def [symmetric] x(1))
      show ?thesis
        using place_header [OF x(2) x(3) x(7) [folded cs] al lo le] False
        by (simp add: m None cs)
    qed
  qed
  with v show ?thesis
    unfolding Let_def asize_def [symmetric] ext_def [symmetric] c_def [symmetric] r_def [symmetric]
    by simp
qed

theorem malloc_block_size_witness:
  "free_list heap_init [0x10040] \<and> free_list heap_used [] \<and>
   disjoint_blocks heap_init (set (free_listp heap_init # [0x10040])) \<and>
   disjoint_blocks heap_used (set (free_listp heap_used # [])) \<and>
   GET_ALLOC heap_init (mem_brk heap_init - DSIZE) = 0 \<and>
   GET_ALLOC heap_used (mem_brk heap_used - DSIZE) \<noteq> 0 \<and>
   map_option (\<lambda>r. (fst r, GET (snd r) (HDRP (fst r)))) (mm_malloc heap_init 448)
     = Some (0x10040, PACK 528 1) \<and>
   map_option (\<lambda>r. (fst r, GET (snd r) (HDRP (fst r)))) (mm_malloc heap_init 5000)
     = Some (0x10040, PACK 5024 1) \<and>
   map_option (\<lambda>r. (fst r, GET (snd r) (HDRP (fst r)))) (mm_malloc heap_used 100)
     = Some (0x11040, PACK 128 1)"
proof -
  note ev = GET_def GET_SIZE_def GET_ALLOC_def HDRP_def FTRP_def
    NEXT_BLKP_def PREV_BLKP_def WSIZE_def DSIZE_def NULL_def
  have fu: "free_list heap_used []"
    by (simp add: free_list_def heap_used_eq fb_next_def fb_prev_def GET_def WSIZE_def
        aligned_def DSIZE_def)
  have n: "(448 :: word64) \<noteq> 0" "unat (448 :: word64) + 31 < 2 ^ 64"
    "(5000 :: word64) \<noteq> 0" "unat (5000 :: word64) + 31 < 2 ^ 64"
    "(100 :: word64) \<noteq> 0" "unat (100 :: word64) + 31 < 2 ^ 64"
    by simp_all
  have fri: "\<forall>x \<in> set [0x10040]. x \<noteq> NULL \<and> GET_ALLOC heap_init (HDRP x) = 0"
    and sai: "GET_ALLOC heap_init (HDRP (free_listp heap_init)) \<noteq> 0"
    and bli: "\<forall>y \<in> set (free_listp heap_init # [0x10040]).
        y \<le> mem_brk heap_init \<and> GET_SIZE heap_init (HDRP y) \<le> mem_brk heap_init - y"
    and aei: "aligned (mem_brk heap_init)"
    and pbi: "DSIZE \<le> PREV_BLKP heap_init (mem_brk heap_init)"
      "PREV_BLKP heap_init (mem_brk heap_init) < mem_brk heap_init"
    and pvi: "GET_SIZE heap_init (HDRP (PREV_BLKP heap_init (mem_brk heap_init))) =
        GET_SIZE heap_init (mem_brk heap_init - DSIZE)"
    and pfi: "PREV_BLKP heap_init (mem_brk heap_init) \<in> set [0x10040] \<and>
        GET_ALLOC heap_init (PREV_BLKP heap_init (mem_brk heap_init) - DSIZE) \<noteq> 0"
    and li: "GET_ALLOC heap_init (mem_brk heap_init - DSIZE) = 0"
    by (simp_all add: heap_init_eq ev aligned_def)
  have fru: "\<forall>x \<in> set []. x \<noteq> NULL \<and> GET_ALLOC heap_used (HDRP x) = 0"
    and sau: "GET_ALLOC heap_used (HDRP (free_listp heap_used)) \<noteq> 0"
    and dju: "disjoint_blocks heap_used (set (free_listp heap_used # []))"
    and blu: "\<forall>y \<in> set (free_listp heap_used # []).
        y \<le> mem_brk heap_used \<and> GET_SIZE heap_used (HDRP y) \<le> mem_brk heap_used - y"
    and aeu: "aligned (mem_brk heap_used)"
    and pbu: "DSIZE \<le> PREV_BLKP heap_used (mem_brk heap_used)"
      "PREV_BLKP heap_used (mem_brk heap_used) < mem_brk heap_used"
    and pvu: "GET_SIZE heap_used (HDRP (PREV_BLKP heap_used (mem_brk heap_used))) =
        GET_SIZE heap_used (mem_brk heap_used - DSIZE)"
    and lu: "GET_ALLOC heap_used (mem_brk heap_used - DSIZE) \<noteq> 0"
    by (simp_all add: heap_used_eq ev aligned_def disjoint_blocks_def)
  have pfu: "PREV_BLKP heap_used (mem_brk heap_used) \<in> set [] \<and>
        GET_ALLOC heap_used (PREV_BLKP heap_used (mem_brk heap_used) - DSIZE) \<noteq> 0"
    if "GET_ALLOC heap_used (mem_brk heap_used - DSIZE) = 0"
    using that lu by simp
  have vals: "malloc_asize 448 = 528" "malloc_asize 5000 = 5024" "malloc_asize 100 = 128"
    "GET_SIZE heap_init (HDRP 0x10040) = 4096" "mem_brk heap_init = 0x11040"
    "mem_brk heap_used = 0x11040" "mem_max_addr heap_init = 0x20000"
    "mem_max_addr heap_used = 0x20000" "GET_SIZE heap_init 69680 = 4096"
    "PREV_BLKP heap_init 0x11040 = 0x10040"
    by (simp_all add: malloc_asize_def heap_init_eq heap_used_eq ev)
  note t1 = malloc_block_size [OF n(1) n(2) free_list_heap_init fri sai disjoint_heap_init
      bli aei pbi pvi pfi]
  note t2 = malloc_block_size [OF n(3) n(4) free_list_heap_init fri sai disjoint_heap_init
      bli aei pbi pvi pfi]
  note t3 = malloc_block_size [OF n(5) n(6) fu fru sau dju blu aeu pbu pvu pfu]
  have r1: "map_option (\<lambda>r. (fst r, GET (snd r) (HDRP (fst r)))) (mm_malloc heap_init 448)
     = Some (0x10040, PACK 528 1)"
    using t1 li by (auto simp: vals Let_def MAX_c_def CHUNKSIZE_def DSIZE_def WSIZE_def
        split: option.splits)
  have r2: "map_option (\<lambda>r. (fst r, GET (snd r) (HDRP (fst r)))) (mm_malloc heap_init 5000)
     = Some (0x10040, PACK 5024 1)"
    using t2 li by (auto simp: vals Let_def MAX_c_def CHUNKSIZE_def DSIZE_def WSIZE_def
        split: option.splits)
  have r3: "map_option (\<lambda>r. (fst r, GET (snd r) (HDRP (fst r)))) (mm_malloc heap_used 100)
     = Some (0x11040, PACK 128 1)"
    using t3 lu by (auto simp: vals Let_def MAX_c_def CHUNKSIZE_def DSIZE_def WSIZE_def
        split: option.splits)
  show ?thesis
    using free_list_heap_init fu disjoint_heap_init dju li lu r1 r2 r3 by simp
qed

end
